theory Spec2Isabelle
  imports Main "HOL-Library.Sublist"
begin

chapter \<open>Definitions\<close>

section \<open>Webhook edge functions\<close>

text \<open>
  A value caught by \<^verbatim>\<open>catch (error)\<close> in the handlers: an object whose \<^verbatim>\<open>message\<close>
  and \<^verbatim>\<open>type\<close> properties are strings or \<^verbatim>\<open>undefined\<close> (\<open>None\<close>). A plain \<^verbatim>\<open>Error\<close>
  has a message and no type; an error of the provider SDK carries both.
\<close>

record js_error =
  message :: "string option"
  type :: "string option"

text \<open>
  The part of a \<^verbatim>\<open>Request\<close> the handlers read. \<^verbatim>\<open>req.headers.get(name)\<close> is
  \<open>headers req name\<close>, with \<open>None\<close> for \<^verbatim>\<open>null\<close> (header absent); \<^verbatim>\<open>req.method\<close>
  is \<open>req_method req\<close>.
\<close>

record request =
  req_method :: string
  headers :: "string \<rightharpoonup> string"
  rawBody :: string

text \<open>
  The bodies the handlers answer with: a plain text, \<^verbatim>\<open>JSON.stringify({ received: true })\<close>,
  and \<^verbatim>\<open>JSON.stringify({ error: error.message })\<close>.
\<close>

datatype response_body = Text string | JsonReceived | JsonError "string option"

record response =
  content :: response_body
  status :: nat

text \<open>\<^verbatim>\<open>String.prototype.includes\<close>: the search string occurs at some position.\<close>

fun str_includes :: "string \<Rightarrow> string \<Rightarrow> bool" where
  "str_includes [] sub = (sub = [])"
| "str_includes (c # cs) sub = (prefix sub (c # cs) \<or> str_includes cs sub)"

text \<open>
  \<^verbatim>\<open>stripeSync.processWebhook(rawBody, sig)\<close> as the handlers see it: it runs on the
  engine's state \<open>'s\<close> (the database), returns the new state, and either resolves
  (\<open>Inr ()\<close>) or throws (\<open>Inl error\<close>).
\<close>

type_synonym 's webhook_processor = "string \<Rightarrow> string \<Rightarrow> 's \<Rightarrow> (js_error + unit) \<times> 's"

text \<open>
  \<^verbatim>\<open>error.message?.includes('signature') || error.type === 'StripeSignatureVerificationError'\<close>
  (stripe-webhook.ts). With \<^verbatim>\<open>message\<close> undefined the optional chain is \<^verbatim>\<open>undefined\<close>,
  which is falsy.
\<close>

definition isSignatureError :: "js_error \<Rightarrow> bool" where
  "isSignatureError error =
     ((case message error of None \<Rightarrow> False | Some m \<Rightarrow> str_includes m ''signature'')
      \<or> type error = Some ''StripeSignatureVerificationError'')"

definition method_not_allowed :: response where
  "method_not_allowed = \<lparr>content = Text ''Method not allowed'', status = 405\<rparr>"

definition missing_signature :: response where
  "missing_signature = \<lparr>content = Text ''Missing stripe-signature header'', status = 400\<rparr>"

text \<open>
  The handler of packages/cli/src/edge-functions/stripe-webhook.ts. \<^verbatim>\<open>!sig\<close> holds for
  \<^verbatim>\<open>null\<close> and for the empty string.
\<close>

definition stripe_webhook :: "'s webhook_processor \<Rightarrow> request \<Rightarrow> 's \<Rightarrow> response \<times> 's" where
  "stripe_webhook processWebhook req s =
     (if req_method req \<noteq> ''POST'' then (method_not_allowed, s)
      else case headers req ''stripe-signature'' of
        None \<Rightarrow> (missing_signature, s)
      | Some sig \<Rightarrow>
          if sig = [] then (missing_signature, s)
          else (case processWebhook (rawBody req) sig s of
                  (Inr _, s') \<Rightarrow> (\<lparr>content = JsonReceived, status = 200\<rparr>, s')
                | (Inl error, s') \<Rightarrow>
                    (\<lparr>content = JsonError (message error),
                      status = (if isSignatureError error then 400 else 500)\<rparr>, s')))"

text \<open>
  The handler inside the template returned by \<^verbatim>\<open>getWebhookFunctionCode\<close>: the same
  checks, and status 400 for every error caught.
\<close>

definition getWebhookFunctionCode_handler ::
  "'s webhook_processor \<Rightarrow> request \<Rightarrow> 's \<Rightarrow> response \<times> 's" where
  "getWebhookFunctionCode_handler processWebhook req s =
     (if req_method req \<noteq> ''POST'' then (method_not_allowed, s)
      else case headers req ''stripe-signature'' of
        None \<Rightarrow> (missing_signature, s)
      | Some sig \<Rightarrow>
          if sig = [] then (missing_signature, s)
          else (case processWebhook (rawBody req) sig s of
                  (Inr _, s') \<Rightarrow> (\<lparr>content = JsonReceived, status = 200\<rparr>, s')
                | (Inl error, s') \<Rightarrow>
                    (\<lparr>content = JsonError (message error), status = 400\<rparr>, s')))"

text \<open>
  A processor that counts its invocations: the state is paired with the number of calls
  made so far.
\<close>

definition counted :: "'s webhook_processor \<Rightarrow> (nat \<times> 's) webhook_processor" where
  "counted processWebhook body sig = (\<lambda>(n, s).
     case processWebhook body sig s of (r, s') \<Rightarrow> (r, (Suc n, s')))"

text \<open>
  Modelled from the spec: \<^verbatim>\<open>processWebhook\<close> of the engine, whose source is not part of
  the files at hand (section 4.6). Step 1 verifies the signature through the provider
  client's \<^verbatim>\<open>constructEvent(rawBody, signatureHeader, secret) \<rightarrow> Event | SignatureError\<close>,
  here \<open>constructEvent\<close> with the configured secret built in, \<open>Inl msg\<close> on a mismatch;
  on a mismatch the operation fails with \<^verbatim>\<open>SignatureError\<close>. Steps 2 to 5 (parse,
  resolve the account, dispatch, project) are the parameter \<open>project\<close>, the only part
  that writes rows. \<^verbatim>\<open>SignatureError\<close> is the provider SDK's verification error, the
  one the handler names by its type.
\<close>

definition SignatureError :: "string \<Rightarrow> js_error" where
  "SignatureError msg = \<lparr>message = Some msg, type = Some ''StripeSignatureVerificationError''\<rparr>"

definition processWebhook ::
  "(string \<Rightarrow> string \<Rightarrow> string + 'e) \<Rightarrow> ('e \<Rightarrow> 's \<Rightarrow> (js_error + unit) \<times> 's) \<Rightarrow> 's webhook_processor" where
  "processWebhook constructEvent project body sig db =
     (case constructEvent body sig of
        Inl msg \<Rightarrow> (Inl (SignatureError msg), db)
      | Inr event \<Rightarrow> project event db)"


section \<open>Metadata tables and their constraints\<close>

text \<open>
  SQL comparisons have three truth values; \<open>None\<close> is NULL (unknown). \<^verbatim>\<open>=\<close> with a NULL
  operand is NULL, \<^verbatim>\<open>AND\<close> is false as soon as one side is false, and a \<^verbatim>\<open>WHERE\<close> clause,
  a \<^verbatim>\<open>CASE WHEN\<close> and a constraint's conflict test act only on TRUE.
\<close>

definition sql_eq :: "'a option \<Rightarrow> 'a option \<Rightarrow> bool option" where
  "sql_eq a b =
     (case a of None \<Rightarrow> None
      | Some x \<Rightarrow> (case b of None \<Rightarrow> None | Some y \<Rightarrow> Some (x = y)))"

definition sql_and :: "bool option \<Rightarrow> bool option \<Rightarrow> bool option" where
  "sql_and p q =
     (if p = Some False \<or> q = Some False then Some False
      else if p = None \<or> q = None then None
      else Some True)"

definition is_true :: "bool option \<Rightarrow> bool" where
  "is_true p = (p = Some True)"

text \<open>
  A table is the list of its rows. The statements that change a table: insert a row,
  update the rows a predicate selects, delete the rows a predicate selects.
\<close>

datatype 'r stmt = INSERT 'r | UPDATE "'r \<Rightarrow> bool" "'r \<Rightarrow> 'r" | DELETE "'r \<Rightarrow> bool"

datatype db_error = ConstraintViolation string

definition apply_stmt :: "'r list \<Rightarrow> 'r stmt \<Rightarrow> 'r list" where
  "apply_stmt tbl st =
     (case st of
        INSERT r \<Rightarrow> tbl @ [r]
      | UPDATE w f \<Rightarrow> map (\<lambda>r. if w r then f r else r) tbl
      | DELETE w \<Rightarrow> filter (\<lambda>r. \<not> w r) tbl)"

text \<open>
  A \<^verbatim>\<open>UNIQUE\<close> or \<^verbatim>\<open>EXCLUDE\<close> constraint is given by the test \<open>c\<close> that says when two
  different rows conflict; a table satisfies it when no two of its rows do.
\<close>

fun no_conflict :: "('r \<Rightarrow> 'r \<Rightarrow> bool) \<Rightarrow> 'r list \<Rightarrow> bool" where
  "no_conflict c [] = True"
| "no_conflict c (r # rs) = ((\<forall>x \<in> set rs. \<not> c r x) \<and> no_conflict c rs)"

text \<open>
  A statement on a table that carries the constraint called \<open>cname\<close>: the database rejects it,
  changing nothing, when its result would violate the constraint. (The database checks
  row by row and may reject more; it never accepts a violating result.)
\<close>

definition exec_stmt ::
  "string \<Rightarrow> ('r \<Rightarrow> 'r \<Rightarrow> bool) \<Rightarrow> 'r list \<Rightarrow> 'r stmt \<Rightarrow> db_error + 'r list" where
  "exec_stmt cname c tbl st =
     (if no_conflict c (apply_stmt tbl st) then Inr (apply_stmt tbl st)
      else Inl (ConstraintViolation cname))"

text \<open>A sequence of statements; a rejected statement leaves the table as it was.\<close>

fun run_stmts :: "('r list \<Rightarrow> 'r stmt \<Rightarrow> db_error + 'r list) \<Rightarrow> 'r list \<Rightarrow> 'r stmt list \<Rightarrow> 'r list" where
  "run_stmts ex tbl [] = tbl"
| "run_stmts ex tbl (st # sts) =
     (case ex tbl st of Inl e \<Rightarrow> run_stmts ex tbl sts | Inr tbl' \<Rightarrow> run_stmts ex tbl' sts)"

subsection \<open>\<^verbatim>\<open>_sync_run\<close> and the \<^verbatim>\<open>sync_dashboard\<close> view\<close>

text \<open>
  The columns of \<^verbatim>\<open>_sync_run\<close> (alias \<^verbatim>\<open>r\<close>) and \<^verbatim>\<open>_sync_obj_run\<close> (alias \<^verbatim>\<open>o\<close>) that the
  constraint and the derived status read. No file at hand declares them \<^verbatim>\<open>NOT NULL\<close>, so
  each may be NULL. Timestamps are numbers.
\<close>

record sync_run =
  r_account_id :: "string option"
  r_started_at :: "nat option"
  r_closed_at :: "nat option"

record sync_obj_run =
  o_account_id :: "string option"
  o_run_started_at :: "nat option"
  o_status :: "string option"

text \<open>
  \<^verbatim>\<open>EXCLUDE ("_account_id" WITH =) WHERE (closed_at IS NULL)\<close>: two rows conflict when both
  satisfy the \<^verbatim>\<open>WHERE\<close> predicate and their account ids compare equal.
\<close>

definition active_conflict :: "sync_run \<Rightarrow> sync_run \<Rightarrow> bool" where
  "active_conflict x y =
     (r_closed_at x = None \<and> r_closed_at y = None
      \<and> is_true (sql_eq (r_account_id x) (r_account_id y)))"

definition one_active_run_per_account :: "sync_run list \<Rightarrow> sync_run stmt \<Rightarrow> db_error + sync_run list" where
  "one_active_run_per_account = exec_stmt ''one_active_run_per_account'' active_conflict"

text \<open>
  The migration that adds \<^verbatim>\<open>closed_at\<close>, on the rows of \<^verbatim>\<open>_sync_run\<close>. Step 3 adds the
  column, NULL in every row, unless it exists already (\<open>has_closed_at\<close>); step 4 adds the
  constraint, which the database validates against the rows present, failing the
  migration when they violate it.
\<close>

definition migration_add_closed_at :: "bool \<Rightarrow> sync_run list \<Rightarrow> db_error + sync_run list" where
  "migration_add_closed_at has_closed_at tbl =
     (let tbl' = (if has_closed_at then tbl else map (\<lambda>r. r\<lparr>r_closed_at := None\<rparr>) tbl)
      in if no_conflict active_conflict tbl' then Inr tbl'
         else Inl (ConstraintViolation ''one_active_run_per_account''))"

text \<open>
  The \<^verbatim>\<open>status\<close> column of \<^verbatim>\<open>sync_dashboard\<close> for the run \<open>r\<close>, over the rows \<open>objs\<close> of
  \<^verbatim>\<open>_sync_obj_run\<close>: the \<^verbatim>\<open>CASE\<close> takes the first branch whose condition is TRUE, and
  \<^verbatim>\<open>EXISTS\<close> holds when the subquery's \<^verbatim>\<open>WHERE\<close> keeps a row.
\<close>

definition sync_dashboard_status :: "sync_obj_run list \<Rightarrow> sync_run \<Rightarrow> string" where
  "sync_dashboard_status objs r =
     (if r_closed_at r = None then ''running''
      else if filter (\<lambda>ob. is_true
                (sql_and (sql_and (sql_eq (o_account_id ob) (r_account_id r))
                                  (sql_eq (o_run_started_at ob) (r_started_at r)))
                         (sql_eq (o_status ob) (Some ''error'')))) objs \<noteq> []
      then ''error''
      else ''complete'')"

subsection \<open>\<^verbatim>\<open>_sync_status\<close>\<close>

text \<open>
  The columns of \<^verbatim>\<open>_sync_status\<close> the constraint reads, and the serial id. The account id
  is declared \<^verbatim>\<open>TEXT NOT NULL\<close>; nothing at hand says so of \<^verbatim>\<open>resource\<close>.
\<close>

record sync_status =
  s_id :: nat
  s_resource :: "string option"
  s_account_id :: string

text \<open>
  \<^verbatim>\<open>UNIQUE (resource, "account_id")\<close>: two rows conflict when both columns compare equal
  (NULLs are distinct from each other).
\<close>

definition resource_account_conflict :: "sync_status \<Rightarrow> sync_status \<Rightarrow> bool" where
  "resource_account_conflict x y =
     is_true (sql_and (sql_eq (s_resource x) (s_resource y))
                      (sql_eq (Some (s_account_id x)) (Some (s_account_id y))))"

text \<open>
  The table together with whether \<^verbatim>\<open>_sync_status_resource_account_key\<close> is in place.
\<close>

record sync_status_table =
  status_rows :: "sync_status list"
  resource_account_key :: bool

text \<open>
  The migration that adds the account id: step 1 deletes every row, step 2 adds the
  column, step 4 adds the constraint, which the empty table satisfies.
\<close>

definition migration_add_account_id :: "sync_status_table \<Rightarrow> sync_status_table" where
  "migration_add_account_id t = \<lparr>status_rows = [], resource_account_key = True\<rparr>"

text \<open>
  Migration 0049: step 1 drops the constraint, step 2 renames columns (the rows keep
  their values), step 3 adds the constraint again, validated against the rows present;
  when they violate it the statement fails and the constraint stays dropped.
\<close>

definition migration_0049 :: "sync_status_table \<Rightarrow> sync_status_table" where
  "migration_0049 t =
     (let dropped = t\<lparr>resource_account_key := False\<rparr>
      in if no_conflict resource_account_conflict (status_rows dropped)
         then dropped\<lparr>resource_account_key := True\<rparr>
         else dropped)"

datatype status_op = Stmt "sync_status stmt" | Migration_0049

fun status_step :: "sync_status_table \<Rightarrow> status_op \<Rightarrow> sync_status_table" where
  "status_step t Migration_0049 = migration_0049 t"
| "status_step t (Stmt st) =
     (if resource_account_key t
      then (case exec_stmt ''_sync_status_resource_account_key'' resource_account_conflict
                   (status_rows t) st of
              Inl e \<Rightarrow> t
            | Inr tbl' \<Rightarrow> t\<lparr>status_rows := tbl'\<rparr>)
      else t\<lparr>status_rows := apply_stmt (status_rows t) st\<rparr>)"

fun status_steps :: "sync_status_table \<Rightarrow> status_op list \<Rightarrow> sync_status_table" where
  "status_steps t [] = t"
| "status_steps t (x # xs) = status_steps (status_step t x) xs"


section \<open>Migration runner of the deploy client\<close>



















section \<open>Engine configuration\<close>

text \<open>
  The configuration object fields the schema tests set. A field left out and a field set
  to \<^verbatim>\<open>undefined\<close> read the same, \<open>None\<close>.
\<close>

record StripeSyncConfig =
  stripeSecretKey :: string
  schema :: "string option"

text \<open>The operator \<^verbatim>\<open>??\<close>: the right operand only for a nullish left one.\<close>

definition nullish_coalesce :: "'a option \<Rightarrow> 'a \<Rightarrow> 'a" where
  "nullish_coalesce v d = (case v of None \<Rightarrow> d | Some x \<Rightarrow> x)"

text \<open>
  Modelled from the spec: the schema the \<^verbatim>\<open>StripeSync\<close> constructor passes to the database
  client; the constructor's source is not part of the files at hand. Section 6 gives
  \<^verbatim>\<open>schema\<close> the default \<^verbatim>\<open>stripe\<close> and lets the empty string mean "no schema prefix";
  the test of the empty string says the default is taken by nullish coalescing.
\<close>

definition StripeSync_schema :: "StripeSyncConfig \<Rightarrow> string" where
  "StripeSync_schema config = nullish_coalesce (schema config) ''stripe''"


section \<open>Managed webhooks\<close>

text \<open>
  A webhook endpoint as the provider holds it, and a row of \<^verbatim>\<open>_managed_webhooks\<close>. The
  provider's endpoint ids are opaque; they are numbered here in the order of issue.
\<close>

record webhook_endpoint =
  endpoint_id :: nat
  url :: string
  managed_by :: "string option"
  description :: "string option"
  enabled_events :: "string list"

record managed_webhook =
  mw_id :: nat
  mw_account_id :: string
  mw_url :: string

text \<open>
  The state the callers share: the endpoints of the acting account at the provider, the
  local table (rows of every account), and the number of ids the provider has issued.
\<close>

record world =
  provider :: "webhook_endpoint list"
  local_rows :: "managed_webhook list"
  issued :: nat

definition retrieve :: "world \<Rightarrow> nat \<Rightarrow> webhook_endpoint option" where
  "retrieve w i = find (\<lambda>e. endpoint_id e = i) (provider w)"

definition delete_provider :: "nat \<Rightarrow> world \<Rightarrow> world" where
  "delete_provider i w = w\<lparr>provider := filter (\<lambda>e. endpoint_id e \<noteq> i) (provider w)\<rparr>"

definition delete_local :: "managed_webhook \<Rightarrow> world \<Rightarrow> world" where
  "delete_local r w = w\<lparr>local_rows := filter (\<lambda>x. x \<noteq> r) (local_rows w)\<rparr>"

definition is_managed :: "string \<Rightarrow> webhook_endpoint \<Rightarrow> bool" where
  "is_managed baseUrl e = (url e = baseUrl \<and> managed_by e = Some ''stripe-sync'')"

text \<open>
  Modelled from the spec: steps 2 to 4 of \<^verbatim>\<open>findOrCreateManagedWebhook\<close> (section 4.7),
  whose source is not part of the files at hand. \<open>account_rows\<close> lists the local rows of
  the current account (step 2). \<open>reconcile\<close> fetches the provider-side endpoint of each
  (step 3): it deletes the local row when the endpoint is absent; it deletes endpoint and
  row when the URL is not the one asked for or the endpoint is not marked
  \<^verbatim>\<open>managed_by = "stripe-sync"\<close> (legacy); and it collects the endpoints of the valid
  pairs that remain (step 4). A pair is valid when row and endpoint have the URL asked
  for and the endpoint has the mark. A row recorded under another URL is a legacy row:
  the verification script's test of URL mismatch cleanup records an endpoint under the
  old URL and requires the call for the new URL to delete it at the provider.
\<close>

definition account_rows :: "string \<Rightarrow> world \<Rightarrow> managed_webhook list" where
  "account_rows account w = filter (\<lambda>r. mw_account_id r = account) (local_rows w)"

fun reconcile :: "string \<Rightarrow> managed_webhook list \<Rightarrow> world \<Rightarrow> webhook_endpoint list \<times> world" where
  "reconcile baseUrl [] w = ([], w)"
| "reconcile baseUrl (r # rs) w =
     (case retrieve w (mw_id r) of
        None \<Rightarrow> reconcile baseUrl rs (delete_local r w)
      | Some e \<Rightarrow>
          if mw_url r = baseUrl \<and> is_managed baseUrl e
          then (case reconcile baseUrl rs w of (valid, w') \<Rightarrow> (e # valid, w'))
          else reconcile baseUrl rs (delete_local r (delete_provider (endpoint_id e) w)))"

text \<open>
  Modelled from the spec: the backward-compatible description matches of step 5, "exactly
  stripe-sync-cli development webhook, exactly Stripe Sync Development, or the
  whitespace-normalized prefix stripe sync". Whitespace normalization drops leading and
  trailing whitespace and turns every other run of whitespace into one space.
\<close>

definition is_whitespace :: "char \<Rightarrow> bool" where
  "is_whitespace c = (c = CHR '' '' \<or> c = CHR 0x09 \<or> c = CHR 0x0A \<or> c = CHR 0x0D)"

fun ws_words :: "string \<Rightarrow> string \<Rightarrow> string list" where
  "ws_words cur [] = (if cur = [] then [] else [cur])"
| "ws_words cur (c # cs) =
     (if is_whitespace c then (if cur = [] then ws_words [] cs else cur # ws_words [] cs)
      else ws_words (cur @ [c]) cs)"

fun join_words :: "string list \<Rightarrow> string" where
  "join_words [] = []"
| "join_words [w] = w"
| "join_words (w # ws) = w @ '' '' @ join_words ws"

definition normalize_whitespace :: "string \<Rightarrow> string" where
  "normalize_whitespace s = join_words (ws_words [] s)"

definition legacy_description :: "string option \<Rightarrow> bool" where
  "legacy_description d =
     (case d of
        None \<Rightarrow> False
      | Some s \<Rightarrow> s = ''stripe-sync-cli development webhook''
                 \<or> s = ''Stripe Sync Development''
                 \<or> prefix ''stripe sync'' (normalize_whitespace s))"

text \<open>
  Modelled from the spec: steps 5 and 6. Step 5 scans the account's endpoints at the
  provider for those marked \<^verbatim>\<open>managed_by = "stripe-sync"\<close>, or matching by description,
  that do not appear among the account's local rows, and deletes them. Step 6 creates
  the endpoint (the provider issues the next id), with the description of section 6, and
  inserts the local row.
\<close>

definition is_orphan :: "string \<Rightarrow> world \<Rightarrow> webhook_endpoint \<Rightarrow> bool" where
  "is_orphan account w e =
     ((managed_by e = Some ''stripe-sync'' \<or> legacy_description (description e))
      \<and> endpoint_id e \<notin> mw_id ` set (account_rows account w))"

definition cleanup_orphans :: "string \<Rightarrow> world \<Rightarrow> world" where
  "cleanup_orphans account w = w\<lparr>provider := filter (\<lambda>e. \<not> is_orphan account w e) (provider w)\<rparr>"

definition new_endpoint :: "string \<Rightarrow> string list \<Rightarrow> world \<Rightarrow> webhook_endpoint" where
  "new_endpoint baseUrl events w =
     \<lparr>endpoint_id = issued w, url = baseUrl, managed_by = Some ''stripe-sync'',
      description = Some ''Stripe Sync managed webhook'', enabled_events = events\<rparr>"

definition create_endpoint :: "string \<Rightarrow> string list \<Rightarrow> world \<Rightarrow> webhook_endpoint \<times> world" where
  "create_endpoint baseUrl events w =
     (new_endpoint baseUrl events w,
      w\<lparr>provider := provider w @ [new_endpoint baseUrl events w], issued := Suc (issued w)\<rparr>)"

definition insert_row :: "string \<Rightarrow> webhook_endpoint \<Rightarrow> world \<Rightarrow> world" where
  "insert_row account e w =
     w\<lparr>local_rows := local_rows w
          @ [\<lparr>mw_id = endpoint_id e, mw_account_id = account, mw_url = url e\<rparr>]\<rparr>"

text \<open>
  Modelled from the spec: \<^verbatim>\<open>findOrCreateManagedWebhook(baseUrl, {enabled_events})\<close> for the
  account \<open>account\<close>, the body that runs under the advisory lock of step 1, as one
  function. Calls to the provider and the database are taken to succeed.
\<close>

definition findOrCreateManagedWebhook ::
  "string \<Rightarrow> string \<Rightarrow> string list \<Rightarrow> world \<Rightarrow> webhook_endpoint \<times> world" where
  "findOrCreateManagedWebhook account baseUrl events w =
     (case reconcile baseUrl (account_rows account w) w of
        (e # valid, w') \<Rightarrow> (e, w')
      | ([], w') \<Rightarrow>
          (case create_endpoint baseUrl events (cleanup_orphans account w') of
             (e, w'') \<Rightarrow> (e, insert_row account e w'')))"

text \<open>
  Modelled from the spec: concurrent callers with the same URL on the same account
  (sections 4.7 and 5). Each caller is at one of these points: waiting for the advisory
  lock of step 1; holding it, before steps 2 to 4; before the scan of step 5; before
  the creation at the provider; before the insertion of the local row; about to release
  the lock and return; returned.
\<close>

datatype pc =
  Waiting | Locked | Scanning | Creating | Inserting webhook_endpoint
  | Returning webhook_endpoint | Returned webhook_endpoint

text \<open>
  Modelled from the spec: the system of section 5, in which all coordination is in the
  shared state: the shared state itself, the holder of the advisory lock keyed on account
  and URL, and the point each caller is at.
\<close>

record system =
  shared :: world
  lock :: "nat option"
  pcs :: "nat \<Rightarrow> pc"

text \<open>
  Modelled from the spec: one step of caller \<open>i\<close>, of \<open>n\<close> callers, through the steps 1
  to 6 of section 4.7. A waiting caller takes the lock when it is free, and otherwise
  stays where it is; the holder performs its next request on the shared state; the last
  step releases the lock and returns the webhook.
\<close>

definition step :: "nat \<Rightarrow> string \<Rightarrow> string \<Rightarrow> string list \<Rightarrow> nat \<Rightarrow> system \<Rightarrow> system" where
  "step n account baseUrl events i s =
     (if n \<le> i then s
      else case pcs s i of
        Waiting \<Rightarrow>
          (case lock s of
             None \<Rightarrow> s\<lparr>lock := Some i, pcs := (pcs s)(i := Locked)\<rparr>
           | Some j \<Rightarrow> s)
      | Locked \<Rightarrow>
          (case reconcile baseUrl (account_rows account (shared s)) (shared s) of
             (e # valid, w') \<Rightarrow> s\<lparr>shared := w', pcs := (pcs s)(i := Returning e)\<rparr>
           | ([], w') \<Rightarrow> s\<lparr>shared := w', pcs := (pcs s)(i := Scanning)\<rparr>)
      | Scanning \<Rightarrow>
          s\<lparr>shared := cleanup_orphans account (shared s), pcs := (pcs s)(i := Creating)\<rparr>
      | Creating \<Rightarrow>
          (case create_endpoint baseUrl events (shared s) of
             (e, w') \<Rightarrow> s\<lparr>shared := w', pcs := (pcs s)(i := Inserting e)\<rparr>)
      | Inserting e \<Rightarrow>
          s\<lparr>shared := insert_row account e (shared s), pcs := (pcs s)(i := Returning e)\<rparr>
      | Returning e \<Rightarrow> s\<lparr>lock := None, pcs := (pcs s)(i := Returned e)\<rparr>
      | Returned e \<Rightarrow> s)"

text \<open>
  Modelled from the spec: N concurrent callers. A schedule is the list of the callers in
  the order they take steps; any interleaving of the callers is a schedule. At the start
  nobody holds the lock and all wait.
\<close>

fun run :: "nat \<Rightarrow> string \<Rightarrow> string \<Rightarrow> string list \<Rightarrow> nat list \<Rightarrow> system \<Rightarrow> system" where
  "run n account baseUrl events [] s = s"
| "run n account baseUrl events (i # sched) s =
     run n account baseUrl events sched (step n account baseUrl events i s)"

definition initial :: "world \<Rightarrow> system" where
  "initial w = \<lparr>shared = w, lock = None, pcs = (\<lambda>i. Waiting)\<rparr>"

text \<open>
  The schedule in which the callers 0 to n - 1 run one after the other, six steps each.
\<close>

definition one_by_one :: "nat \<Rightarrow> nat list" where
  "one_by_one n = concat (map (replicate 6) [0..<n])"

text \<open>
  The states the calls are taken to start from in the theorem about concurrent calls.
  The provider's ids are unique and below the next id to issue, and the account's rows
  have different ids. \<open>valid_pair\<close> says that a row and its endpoint are a valid pair.
  There is one valid pair at most (the table holds one row per account and URL). And a
  valid pair is not accompanied by an untracked endpoint with the URL and the mark: when
  there is a valid pair, every such endpoint is the endpoint of a row of the account.
\<close>

definition valid_pair :: "string \<Rightarrow> world \<Rightarrow> managed_webhook \<Rightarrow> bool" where
  "valid_pair baseUrl w r =
     (mw_url r = baseUrl
      \<and> (case retrieve w (mw_id r) of None \<Rightarrow> False | Some e \<Rightarrow> is_managed baseUrl e))"

definition no_stray_beside_pair :: "string \<Rightarrow> string \<Rightarrow> world \<Rightarrow> bool" where
  "no_stray_beside_pair account baseUrl w =
     (distinct (map endpoint_id (provider w))
      \<and> (\<forall>e \<in> set (provider w). endpoint_id e < issued w)
      \<and> distinct (map mw_id (account_rows account w))
      \<and> length (filter (valid_pair baseUrl w) (account_rows account w)) \<le> 1
      \<and> ((\<exists>r \<in> set (account_rows account w). valid_pair baseUrl w r) \<longrightarrow>
           (\<forall>e \<in> set (provider w). is_managed baseUrl e \<longrightarrow>
              endpoint_id e \<in> mw_id ` set (account_rows account w))))"

text \<open>
  Shapes of the shared state used in the proofs. \<open>settled\<close>: the account has exactly the
  row of the endpoint \<open>e\<close>, for the URL, and \<open>e\<close> is the one endpoint at the provider with
  the URL and the mark. \<open>rows_gone\<close>, \<open>swept\<close> and \<open>created\<close>: the state of a caller that
  found no valid pair, after step 3, after step 5 and after the creation at the provider.
\<close>

definition settled :: "string \<Rightarrow> string \<Rightarrow> webhook_endpoint \<Rightarrow> world \<Rightarrow> bool" where
  "settled account baseUrl e w =
     (account_rows account w
        = [\<lparr>mw_id = endpoint_id e, mw_account_id = account, mw_url = baseUrl\<rparr>]
      \<and> retrieve w (endpoint_id e) = Some e
      \<and> filter (is_managed baseUrl) (provider w) = [e])"

definition rows_gone :: "string \<Rightarrow> world \<Rightarrow> bool" where
  "rows_gone account w =
     (account_rows account w = [] \<and> (\<forall>e \<in> set (provider w). endpoint_id e < issued w))"

definition swept :: "string \<Rightarrow> string \<Rightarrow> world \<Rightarrow> bool" where
  "swept account baseUrl w =
     (rows_gone account w \<and> filter (is_managed baseUrl) (provider w) = [])"

definition created :: "string \<Rightarrow> string \<Rightarrow> webhook_endpoint \<Rightarrow> world \<Rightarrow> bool" where
  "created account baseUrl e w =
     (account_rows account w = [] \<and> url e = baseUrl
      \<and> retrieve w (endpoint_id e) = Some e
      \<and> filter (is_managed baseUrl) (provider w) = [e])"

text \<open>
  The invariant of the system. \<open>between\<close> holds of the shared state whenever no caller
  is inside steps 2 to 6: either nobody has returned and the state is as at the start, or
  the state is settled on the endpoint that every returned caller got. While a caller
  holds the lock, all others wait or have returned, and the state is the one that belongs
  to the point the holder is at.
\<close>

definition idle :: "pc \<Rightarrow> bool" where
  "idle p = (case p of Waiting \<Rightarrow> True | Returned e \<Rightarrow> True | _ \<Rightarrow> False)"

definition none_returned :: "(nat \<Rightarrow> pc) \<Rightarrow> bool" where
  "none_returned ps = (\<forall>j e. ps j \<noteq> Returned e)"

definition all_returned :: "webhook_endpoint \<Rightarrow> (nat \<Rightarrow> pc) \<Rightarrow> bool" where
  "all_returned e ps = (\<forall>j x. ps j = Returned x \<longrightarrow> x = e)"

definition between :: "string \<Rightarrow> string \<Rightarrow> system \<Rightarrow> bool" where
  "between account baseUrl s =
     ((none_returned (pcs s) \<and> no_stray_beside_pair account baseUrl (shared s))
      \<or> (\<exists>e. settled account baseUrl e (shared s) \<and> all_returned e (pcs s)))"

definition system_inv :: "string \<Rightarrow> string \<Rightarrow> system \<Rightarrow> bool" where
  "system_inv account baseUrl s =
     (case lock s of
        None \<Rightarrow> (\<forall>j. idle (pcs s j)) \<and> between account baseUrl s
      | Some i \<Rightarrow>
          (\<forall>j. j \<noteq> i \<longrightarrow> idle (pcs s j))
          \<and> (case pcs s i of
                Waiting \<Rightarrow> False
              | Locked \<Rightarrow> between account baseUrl s
              | Scanning \<Rightarrow> none_returned (pcs s) \<and> rows_gone account (shared s)
              | Creating \<Rightarrow> none_returned (pcs s) \<and> swept account baseUrl (shared s)
              | Inserting e \<Rightarrow> none_returned (pcs s) \<and> created account baseUrl e (shared s)
              | Returning e \<Rightarrow> settled account baseUrl e (shared s) \<and> all_returned e (pcs s)
              | Returned e \<Rightarrow> False))"

text \<open>
  The number of steps a caller has left before it has returned, at most, once it holds
  the lock or can take it.
\<close>

fun rank :: "pc \<Rightarrow> nat" where
  "rank Waiting = 6"
| "rank Locked = 5"
| "rank Scanning = 4"
| "rank Creating = 3"
| "rank (Inserting e) = 2"
| "rank (Returning e) = 1"
| "rank (Returned e) = 0"


chapter \<open>Theorems\<close>

section \<open>Webhook edge functions\<close>

lemma str_includes_iff: "str_includes s sub \<longleftrightarrow> (\<exists>p q. s = p @ sub @ q)"
proof (induction s)
  case Nil
  then show ?case by auto
next
  case (Cons c cs)
  show ?case
  proof
    assume "str_includes (c # cs) sub"
    then consider "prefix sub (c # cs)" | "str_includes cs sub" by auto
    then show "\<exists>p q. c # cs = p @ sub @ q"
    proof cases
      case 1
      then obtain q where "c # cs = sub @ q" by (auto simp: prefix_def)
      then have "c # cs = [] @ sub @ q" by simp
      then show ?thesis by blast
    next
      case 2
      with Cons.IH obtain p q where "cs = p @ sub @ q" by blast
      then have "c # cs = (c # p) @ sub @ q" by simp
      then show ?thesis by blast
    qed
  next
    assume "\<exists>p q. c # cs = p @ sub @ q"
    then obtain p q where pq: "c # cs = p @ sub @ q" by blast
    show "str_includes (c # cs) sub"
    proof (cases p)
      case Nil
      with pq have "prefix sub (c # cs)" by (simp add: prefix_def)
      then show ?thesis by simp
    next
      case (Cons a p')
      with pq have "cs = p' @ sub @ q" by simp
      with Cons.IH have "str_includes cs sub" by blast
      then show ?thesis by simp
    qed
  qed
qed

text \<open>
  C9. A POST request without a \<^verbatim>\<open>stripe-signature\<close> header is answered with status 400
  and the text "Missing stripe-signature header", by the edge function and by the
  generated template alike; \<^verbatim>\<open>processWebhook\<close> is not invoked (the invocation count
  stays \<open>n\<close>) and the database state \<open>db\<close> is returned as it was.
\<close>

theorem missing_signature_header_400:
  assumes "req_method req = ''POST''" and "headers req ''stripe-signature'' = None"
  shows "stripe_webhook (counted pw) req (n, db)
           = (\<lparr>content = Text ''Missing stripe-signature header'', status = 400\<rparr>, (n, db))
       \<and> getWebhookFunctionCode_handler (counted pw) req (n, db)
           = (\<lparr>content = Text ''Missing stripe-signature header'', status = 400\<rparr>, (n, db))"
  using assms
  by (simp add: stripe_webhook_def getWebhookFunctionCode_handler_def missing_signature_def)

theorem missing_signature_header_400_witness:
  "req_method \<lparr>req_method = ''POST'', headers = Map.empty, rawBody = ''{}''\<rparr> = ''POST''
   \<and> headers \<lparr>req_method = ''POST'', headers = Map.empty, rawBody = ''{}''\<rparr> ''stripe-signature'' = None
   \<and> stripe_webhook (counted (\<lambda>b sg (db :: string list). (Inr (), b # db)))
        \<lparr>req_method = ''POST'', headers = Map.empty, rawBody = ''{}''\<rparr> (0, [])
       = (\<lparr>content = Text ''Missing stripe-signature header'', status = 400\<rparr>, (0, []))
   \<and> getWebhookFunctionCode_handler (counted (\<lambda>b sg (db :: string list). (Inr (), b # db)))
        \<lparr>req_method = ''POST'', headers = Map.empty, rawBody = ''{}''\<rparr> (0, [])
       = (\<lparr>content = Text ''Missing stripe-signature header'', status = 400\<rparr>, (0, []))"
  using missing_signature_header_400
    [of "\<lparr>req_method = ''POST'', headers = Map.empty, rawBody = ''{}''\<rparr>"
        "\<lambda>b sg (db :: string list). (Inr (), b # db)" 0 "[]"]
  by simp

text \<open>
  C10. When \<^verbatim>\<open>processWebhook\<close> throws \<open>error\<close> inside the CLI webhook edge function, the
  response has status 400 exactly when the error's message contains the substring
  "signature" or its type is "StripeSignatureVerificationError"; for every other error
  the status is 500.
\<close>

theorem webhook_error_status:
  assumes "req_method req = ''POST''"
    and "headers req ''stripe-signature'' = Some sig" and "sig \<noteq> []"
    and "pw (rawBody req) sig db = (Inl error, db')"
  shows "(status (fst (stripe_webhook pw req db)) = 400 \<longleftrightarrow>
            (\<exists>m p q. message error = Some m \<and> m = p @ ''signature'' @ q)
            \<or> type error = Some ''StripeSignatureVerificationError'')
       \<and> (\<not> ((\<exists>m p q. message error = Some m \<and> m = p @ ''signature'' @ q)
              \<or> type error = Some ''StripeSignatureVerificationError'')
            \<longrightarrow> status (fst (stripe_webhook pw req db)) = 500)"
proof -
  have sig_iff: "isSignatureError error \<longleftrightarrow>
      (\<exists>m p q. message error = Some m \<and> m = p @ ''signature'' @ q)
      \<or> type error = Some ''StripeSignatureVerificationError''"
    by (cases "message error") (simp_all add: isSignatureError_def str_includes_iff)
  have "status (fst (stripe_webhook pw req db)) = (if isSignatureError error then 400 else 500)"
    using assms by (simp add: stripe_webhook_def)
  with sig_iff show ?thesis by simp
qed

theorem webhook_error_status_witness:
  "status (fst (stripe_webhook
      (\<lambda>b sg (db :: string list). (Inl \<lparr>message = Some ''bad signature'', type = None\<rparr>, db))
      \<lparr>req_method = ''POST'', headers = [''stripe-signature'' \<mapsto> ''t=1,v1=ab''], rawBody = ''{}''\<rparr>
      [])) = 400"
proof -
  let ?req = "\<lparr>req_method = ''POST'', headers = [''stripe-signature'' \<mapsto> ''t=1,v1=ab''], rawBody = ''{}''\<rparr>"
  let ?err = "\<lparr>message = Some ''bad signature'', type = None\<rparr>"
  let ?pw = "\<lambda>(b :: string) (sg :: string) (db :: string list). (Inl ?err :: js_error + unit, db)"
  have "''bad signature'' = ''bad '' @ ''signature'' @ []" by simp
  then have ex: "\<exists>m p q. message ?err = Some m \<and> m = p @ ''signature'' @ q"
    unfolding js_error.simps by blast
  have h1: "req_method ?req = ''POST''" by simp
  have h2: "headers ?req ''stripe-signature'' = Some ''t=1,v1=ab''" by simp
  have h3: "''t=1,v1=ab'' \<noteq> []" by simp
  have h4: "?pw (rawBody ?req) ''t=1,v1=ab'' [] = (Inl ?err, [])" by simp
  from webhook_error_status [of ?req "''t=1,v1=ab''" ?pw "[]" ?err "[]", OF h1 h2 h3 h4] ex
  show ?thesis by blast
qed

text \<open>
  C4. When verification of (body, signature header) fails, \<^verbatim>\<open>processWebhook\<close> throws
  \<^verbatim>\<open>SignatureError\<close> and leaves the database as it was (the projector does not run), and
  the edge function that called it answers with status 400, the database still unchanged.
\<close>

theorem signature_mismatch_400:
  assumes "constructEvent (rawBody req) sig = Inl msg"
    and "req_method req = ''POST''" and "headers req ''stripe-signature'' = Some sig"
  shows "processWebhook constructEvent project (rawBody req) sig db = (Inl (SignatureError msg), db)
       \<and> status (fst (stripe_webhook (processWebhook constructEvent project) req db)) = 400
       \<and> snd (stripe_webhook (processWebhook constructEvent project) req db) = db"
  using assms
  by (simp add: processWebhook_def stripe_webhook_def missing_signature_def
      isSignatureError_def SignatureError_def)

theorem signature_mismatch_400_witness:
  "processWebhook (\<lambda>b sg. if sg = ''good'' then Inr b else Inl ''No signatures found'')
      (\<lambda>ev (db :: string list). (Inr (), ev # db)) ''{}'' ''bad-sig'' []
     = (Inl (SignatureError ''No signatures found''), [])
   \<and> status (fst (stripe_webhook
        (processWebhook (\<lambda>b sg. if sg = ''good'' then Inr b else Inl ''No signatures found'')
           (\<lambda>ev (db :: string list). (Inr (), ev # db)))
        \<lparr>req_method = ''POST'', headers = [''stripe-signature'' \<mapsto> ''bad-sig''], rawBody = ''{}''\<rparr>
        [])) = 400
   \<and> snd (stripe_webhook
        (processWebhook (\<lambda>b sg. if sg = ''good'' then Inr b else Inl ''No signatures found'')
           (\<lambda>ev (db :: string list). (Inr (), ev # db)))
        \<lparr>req_method = ''POST'', headers = [''stripe-signature'' \<mapsto> ''bad-sig''], rawBody = ''{}''\<rparr>
        []) = []"
  using signature_mismatch_400
    [of "\<lambda>b sg. if sg = ''good'' then Inr b else Inl ''No signatures found''"
        "\<lparr>req_method = ''POST'', headers = [''stripe-signature'' \<mapsto> ''bad-sig''], rawBody = ''{}''\<rparr>"
        "''bad-sig''" "''No signatures found''"
        "\<lambda>ev (db :: string list). (Inr (), ev # db)" "[]"]
  by simp

section \<open>Metadata tables and their constraints\<close>

lemma no_conflict_run_stmts:
  "no_conflict c tbl \<Longrightarrow> no_conflict c (run_stmts (exec_stmt cname c) tbl sts)"
proof (induction sts arbitrary: tbl)
  case Nil
  then show ?case by simp
next
  case (Cons st sts)
  show ?case
  proof (cases "exec_stmt cname c tbl st")
    case (Inl e)
    with Cons show ?thesis by simp
  next
    case (Inr tbl')
    then have "no_conflict c tbl'" by (auto simp: exec_stmt_def split: if_splits)
    with Cons.IH Inr show ?thesis by simp
  qed
qed

lemma no_conflict_filter_le_1:
  assumes "no_conflict c tbl" and "\<And>x y. P x \<Longrightarrow> P y \<Longrightarrow> c x y"
  shows "length (filter P tbl) \<le> 1"
  using assms(1)
proof (induction tbl)
  case Nil
  then show ?case by simp
next
  case (Cons r rs)
  then have ih: "length (filter P rs) \<le> 1" by simp
  show ?case
  proof (cases "P r")
    case True
    have "filter P rs = []"
    proof (rule ccontr)
      assume "filter P rs \<noteq> []"
      then obtain x where "x \<in> set rs" "P x"
        by (metis filter_False)
      with True Cons.prems assms(2) show False by auto
    qed
    with True show ?thesis by simp
  next
    case False
    with ih show ?thesis by simp
  qed
qed

lemma conflict_append1: "x \<in> set tbl \<Longrightarrow> c x r \<Longrightarrow> \<not> no_conflict c (tbl @ [r])"
  by (induction tbl) auto

lemma status_steps_invariant:
  assumes "resource_account_key t" and "no_conflict resource_account_conflict (status_rows t)"
  shows "resource_account_key (status_steps t ops)
       \<and> no_conflict resource_account_conflict (status_rows (status_steps t ops))"
  using assms
proof (induction ops arbitrary: t)
  case Nil
  then show ?case by simp
next
  case (Cons x xs)
  have "resource_account_key (status_step t x)
      \<and> no_conflict resource_account_conflict (status_rows (status_step t x))"
  proof (cases x)
    case (Stmt st)
    with Cons.prems show ?thesis
      by (auto simp: exec_stmt_def split: sum.splits if_splits)
  next
    case Migration_0049
    with Cons.prems show ?thesis by (simp add: migration_0049_def)
  qed
  with Cons.IH show ?case by simp
qed

text \<open>
  C1. Once the migration has put the exclusion constraint \<^verbatim>\<open>one_active_run_per_account\<close>
  on \<^verbatim>\<open>_sync_run\<close>, after any sequence of statements every account id has at most one
  row whose \<^verbatim>\<open>closed_at\<close> is NULL; the constraint enforces it: inserting a second active
  run for an account that has one is rejected with a violation of that constraint.
\<close>

theorem at_most_one_active_run:
  assumes "migration_add_closed_at has_closed_at tbl0 = Inr tbl"
  shows "length (filter (\<lambda>r. r_account_id r = Some a \<and> r_closed_at r = None)
                   (run_stmts one_active_run_per_account tbl sts)) \<le> 1
       \<and> ((\<exists>x \<in> set (run_stmts one_active_run_per_account tbl sts).
               r_account_id x = Some a \<and> r_closed_at x = None)
            \<longrightarrow> one_active_run_per_account (run_stmts one_active_run_per_account tbl sts)
                  (INSERT \<lparr>r_account_id = Some a, r_started_at = t, r_closed_at = None\<rparr>)
                = Inl (ConstraintViolation ''one_active_run_per_account''))"
proof -
  let ?T = "run_stmts one_active_run_per_account tbl sts"
  from assms have "no_conflict active_conflict tbl"
    by (auto simp: migration_add_closed_at_def Let_def split: if_splits)
  then have inv: "no_conflict active_conflict ?T"
    unfolding one_active_run_per_account_def by (rule no_conflict_run_stmts)
  have conf: "active_conflict x y"
    if "r_account_id x = Some a \<and> r_closed_at x = None"
      and "r_account_id y = Some a \<and> r_closed_at y = None" for x y
    using that by (simp add: active_conflict_def is_true_def sql_eq_def)
  have count: "length (filter (\<lambda>r. r_account_id r = Some a \<and> r_closed_at r = None) ?T) \<le> 1"
    using inv conf by (rule no_conflict_filter_le_1)
  have reject: "one_active_run_per_account ?T
        (INSERT \<lparr>r_account_id = Some a, r_started_at = t, r_closed_at = None\<rparr>)
      = Inl (ConstraintViolation ''one_active_run_per_account'')"
    if "\<exists>x \<in> set ?T. r_account_id x = Some a \<and> r_closed_at x = None"
  proof -
    let ?r = "\<lparr>r_account_id = Some a, r_started_at = t, r_closed_at = None\<rparr>"
    from that obtain x where x: "x \<in> set ?T" "r_account_id x = Some a" "r_closed_at x = None"
      by blast
    then have "active_conflict x ?r"
      by (simp add: active_conflict_def is_true_def sql_eq_def)
    with x(1) have "\<not> no_conflict active_conflict (?T @ [?r])"
      by (rule conflict_append1)
    then show ?thesis
      by (simp add: one_active_run_per_account_def exec_stmt_def apply_stmt_def)
  qed
  show ?thesis
  proof (intro conjI impI)
    show "length (filter (\<lambda>r. r_account_id r = Some a \<and> r_closed_at r = None) ?T) \<le> 1"
      by (rule count)
  next
    assume "\<exists>x \<in> set ?T. r_account_id x = Some a \<and> r_closed_at x = None"
    then show "one_active_run_per_account ?T
        (INSERT \<lparr>r_account_id = Some a, r_started_at = t, r_closed_at = None\<rparr>)
      = Inl (ConstraintViolation ''one_active_run_per_account'')"
      by (rule reject)
  qed
qed

theorem at_most_one_active_run_witness:
  "migration_add_closed_at False
      [\<lparr>r_account_id = Some ''acct_1'', r_started_at = Some 1, r_closed_at = Some 7\<rparr>]
     = Inr [\<lparr>r_account_id = Some ''acct_1'', r_started_at = Some 1, r_closed_at = None\<rparr>]
   \<and> length (filter (\<lambda>r. r_account_id r = Some ''acct_1'' \<and> r_closed_at r = None)
        (run_stmts one_active_run_per_account
           [\<lparr>r_account_id = Some ''acct_1'', r_started_at = Some 1, r_closed_at = None\<rparr>]
           [INSERT \<lparr>r_account_id = Some ''acct_1'', r_started_at = Some 2, r_closed_at = None\<rparr>,
            INSERT \<lparr>r_account_id = Some ''acct_2'', r_started_at = Some 3, r_closed_at = None\<rparr>])) \<le> 1"
proof -
  have h: "migration_add_closed_at False
      [\<lparr>r_account_id = Some ''acct_1'', r_started_at = Some 1, r_closed_at = Some 7\<rparr>]
     = Inr [\<lparr>r_account_id = Some ''acct_1'', r_started_at = Some 1, r_closed_at = None\<rparr>]"
    by (simp add: migration_add_closed_at_def)
  note c = at_most_one_active_run [OF h, THEN conjunct1, of "''acct_1''"
      "[INSERT \<lparr>r_account_id = Some ''acct_1'', r_started_at = Some 2, r_closed_at = None\<rparr>,
        INSERT \<lparr>r_account_id = Some ''acct_2'', r_started_at = Some 3, r_closed_at = None\<rparr>]"]
  from h c show ?thesis by (rule conjI)
qed

text \<open>
  C5. From the migration that adds the account id onwards, after any sequence of
  statements on \<^verbatim>\<open>_sync_status\<close> (and of migration 0049, which drops the composite unique
  constraint on (resource, account_id) and adds it again), the table holds at most one row
  for every pair of a resource and an account id.
\<close>

theorem sync_status_resource_account_unique:
  "length (filter (\<lambda>s. s_resource s = Some res \<and> s_account_id s = acc)
             (status_rows (status_steps (migration_add_account_id t0) ops))) \<le> 1"
proof -
  have "no_conflict resource_account_conflict
          (status_rows (status_steps (migration_add_account_id t0) ops))"
    using status_steps_invariant [of "migration_add_account_id t0" ops]
    by (simp add: migration_add_account_id_def)
  then show ?thesis
    by (rule no_conflict_filter_le_1)
      (simp add: resource_account_conflict_def is_true_def sql_eq_def sql_and_def)
qed

theorem sync_status_resource_account_unique_witness:
  "status_rows (status_steps
       (migration_add_account_id \<lparr>status_rows = [], resource_account_key = False\<rparr>)
       [Stmt (INSERT \<lparr>s_id = 1, s_resource = Some ''customers'', s_account_id = ''acct_1''\<rparr>),
        Stmt (INSERT \<lparr>s_id = 2, s_resource = Some ''customers'', s_account_id = ''acct_1''\<rparr>),
        Migration_0049,
        Stmt (INSERT \<lparr>s_id = 3, s_resource = Some ''customers'', s_account_id = ''acct_2''\<rparr>)])
     = [\<lparr>s_id = 1, s_resource = Some ''customers'', s_account_id = ''acct_1''\<rparr>,
        \<lparr>s_id = 3, s_resource = Some ''customers'', s_account_id = ''acct_2''\<rparr>]
   \<and> length (filter (\<lambda>s. s_resource s = Some ''customers'' \<and> s_account_id s = ''acct_1'')
       (status_rows (status_steps
         (migration_add_account_id \<lparr>status_rows = [], resource_account_key = False\<rparr>)
         [Stmt (INSERT \<lparr>s_id = 1, s_resource = Some ''customers'', s_account_id = ''acct_1''\<rparr>),
          Stmt (INSERT \<lparr>s_id = 2, s_resource = Some ''customers'', s_account_id = ''acct_1''\<rparr>),
          Migration_0049,
          Stmt (INSERT \<lparr>s_id = 3, s_resource = Some ''customers'', s_account_id = ''acct_2''\<rparr>)]))) \<le> 1"
proof -
  have "status_rows (status_steps
       (migration_add_account_id \<lparr>status_rows = [], resource_account_key = False\<rparr>)
       [Stmt (INSERT \<lparr>s_id = 1, s_resource = Some ''customers'', s_account_id = ''acct_1''\<rparr>),
        Stmt (INSERT \<lparr>s_id = 2, s_resource = Some ''customers'', s_account_id = ''acct_1''\<rparr>),
        Migration_0049,
        Stmt (INSERT \<lparr>s_id = 3, s_resource = Some ''customers'', s_account_id = ''acct_2''\<rparr>)])
     = [\<lparr>s_id = 1, s_resource = Some ''customers'', s_account_id = ''acct_1''\<rparr>,
        \<lparr>s_id = 3, s_resource = Some ''customers'', s_account_id = ''acct_2''\<rparr>]"
    by (simp add: migration_add_account_id_def migration_0049_def exec_stmt_def apply_stmt_def
        resource_account_conflict_def is_true_def sql_eq_def sql_and_def)
  with sync_status_resource_account_unique
    [of "''customers''" "''acct_1''" "\<lparr>status_rows = [], resource_account_key = False\<rparr>"]
  show ?thesis by blast
qed

text \<open>
  C6. The status that \<^verbatim>\<open>sync_dashboard\<close> derives for a run is "running" exactly when the
  run's \<^verbatim>\<open>closed_at\<close> is NULL; for a closed run it is "error" exactly when some row of
  \<^verbatim>\<open>_sync_obj_run\<close> associated with the run (same account id and run start) has status
  "error", and "complete" otherwise.
\<close>

theorem sync_dashboard_status_cases:
  "(sync_dashboard_status objs r = ''running'' \<longleftrightarrow> r_closed_at r = None)
   \<and> (r_closed_at r \<noteq> None \<longrightarrow>
        (sync_dashboard_status objs r = ''error'' \<longleftrightarrow>
           (\<exists>ob \<in> set objs. \<exists>a t. r_account_id r = Some a \<and> o_account_id ob = Some a
                \<and> r_started_at r = Some t \<and> o_run_started_at ob = Some t
                \<and> o_status ob = Some ''error'')))
   \<and> (r_closed_at r \<noteq> None
        \<and> \<not> (\<exists>ob \<in> set objs. \<exists>a t. r_account_id r = Some a \<and> o_account_id ob = Some a
                \<and> r_started_at r = Some t \<and> o_run_started_at ob = Some t
                \<and> o_status ob = Some ''error'')
        \<longrightarrow> sync_dashboard_status objs r = ''complete'')"
proof -
  have assoc: "is_true (sql_and (sql_and (sql_eq (o_account_id ob) (r_account_id r))
                                  (sql_eq (o_run_started_at ob) (r_started_at r)))
                         (sql_eq (o_status ob) (Some ''error'')))
      \<longleftrightarrow> (\<exists>a t. r_account_id r = Some a \<and> o_account_id ob = Some a
                \<and> r_started_at r = Some t \<and> o_run_started_at ob = Some t
                \<and> o_status ob = Some ''error'')" for ob
    by (auto simp: is_true_def sql_and_def sql_eq_def split: option.splits if_splits)
  have ex: "filter (\<lambda>ob. is_true (sql_and (sql_and (sql_eq (o_account_id ob) (r_account_id r))
                                  (sql_eq (o_run_started_at ob) (r_started_at r)))
                         (sql_eq (o_status ob) (Some ''error'')))) objs \<noteq> []
      \<longleftrightarrow> (\<exists>ob \<in> set objs. \<exists>a t. r_account_id r = Some a \<and> o_account_id ob = Some a
                \<and> r_started_at r = Some t \<and> o_run_started_at ob = Some t
                \<and> o_status ob = Some ''error'')"
    unfolding filter_empty_conv assoc by blast
  show ?thesis
    unfolding sync_dashboard_status_def ex by auto
qed

theorem sync_dashboard_status_cases_witness:
  "sync_dashboard_status
      [\<lparr>o_account_id = Some ''acct_1'', o_run_started_at = Some 1, o_status = Some ''done''\<rparr>,
       \<lparr>o_account_id = Some ''acct_1'', o_run_started_at = Some 1, o_status = Some ''error''\<rparr>]
      \<lparr>r_account_id = Some ''acct_1'', r_started_at = Some 1, r_closed_at = Some 9\<rparr> = ''error''"
proof -
  let ?objs = "[\<lparr>o_account_id = Some ''acct_1'', o_run_started_at = Some 1, o_status = Some ''done''\<rparr>,
       \<lparr>o_account_id = Some ''acct_1'', o_run_started_at = Some 1, o_status = Some ''error''\<rparr>]"
  let ?r = "\<lparr>r_account_id = Some ''acct_1'', r_started_at = Some (1::nat), r_closed_at = Some (9::nat)\<rparr>"
  have c: "r_closed_at ?r \<noteq> None" by simp
  have e: "\<exists>ob \<in> set ?objs. \<exists>a t. r_account_id ?r = Some a \<and> o_account_id ob = Some a
                \<and> r_started_at ?r = Some t \<and> o_run_started_at ob = Some t
                \<and> o_status ob = Some ''error''"
    by simp
  from sync_dashboard_status_cases [of ?objs ?r] c e show ?thesis by blast
qed

section \<open>Migration runner of the deploy client\<close>










section \<open>Engine configuration\<close>

text \<open>
  C8. When the \<^verbatim>\<open>schema\<close> option is left out or undefined the engine uses the schema
  name "stripe"; when it is the empty string the engine uses the empty string, not the
  default.
\<close>

theorem schema_default_only_when_nullish:
  "(schema config = None \<longrightarrow> StripeSync_schema config = ''stripe'')
   \<and> (schema config = Some [] \<longrightarrow> StripeSync_schema config = [])"
  by (simp add: StripeSync_schema_def nullish_coalesce_def)

theorem schema_default_only_when_nullish_witness:
  "StripeSync_schema \<lparr>stripeSecretKey = ''sk_test_123'', schema = None\<rparr> = ''stripe''
   \<and> StripeSync_schema \<lparr>stripeSecretKey = ''sk_test_123'', schema = Some []\<rparr> = []"
proof -
  have "schema \<lparr>stripeSecretKey = ''sk_test_123'', schema = None\<rparr> = None" by simp
  moreover have "schema \<lparr>stripeSecretKey = ''sk_test_123'', schema = Some []\<rparr> = Some []" by simp
  ultimately show ?thesis
    using schema_default_only_when_nullish [of "\<lparr>stripeSecretKey = ''sk_test_123'', schema = None\<rparr>"]
      schema_default_only_when_nullish [of "\<lparr>stripeSecretKey = ''sk_test_123'', schema = Some []\<rparr>"]
    by blast
qed

section \<open>Managed webhooks\<close>

lemma find_in: "find P xs = Some x \<Longrightarrow> x \<in> set xs \<and> P x"
  by (induction xs) (auto split: if_splits)

lemma find_append_None: "find P xs = None \<Longrightarrow> find P (xs @ ys) = find P ys"
  by (induction xs) (auto split: if_splits)

lemma find_unique:
  "distinct (map f xs) \<Longrightarrow> x \<in> set xs \<Longrightarrow> find (\<lambda>y. f y = f x) xs = Some x"
proof (induction xs)
  case Nil
  then show ?case by simp
next
  case (Cons a xs)
  show ?case
  proof (cases "a = x")
    case True
    then show ?thesis by simp
  next
    case False
    with Cons.prems have x: "x \<in> set xs" by simp
    then have "f x \<in> f ` set xs" by (rule imageI)
    with Cons.prems(1) have "f a \<noteq> f x" by auto
    with Cons.IH Cons.prems(1) x show ?thesis by simp
  qed
qed

lemma find_filter_other:
  "j \<noteq> i \<Longrightarrow> find (\<lambda>e. f e = j) (filter (\<lambda>e. f e \<noteq> i) xs) = find (\<lambda>e. f e = j) xs"
  by (induction xs) auto

lemma filter_only:
  "distinct xs \<Longrightarrow> e \<in> set xs \<Longrightarrow> \<forall>x \<in> set xs. P x \<longleftrightarrow> x = e \<Longrightarrow> filter P xs = [e]"
proof (induction xs)
  case Nil
  then show ?case by simp
next
  case (Cons x xs)
  show ?case
  proof (cases "x = e")
    case True
    with Cons.prems have "\<forall>y \<in> set xs. \<not> P y" by auto
    then have "filter P xs = []" by (simp add: filter_empty_conv)
    with True Cons.prems(3) show ?thesis by simp
  next
    case False
    with Cons.prems have "e \<in> set xs" "distinct xs" "\<forall>y \<in> set xs. P y \<longleftrightarrow> y = e" "\<not> P x"
      by auto
    with Cons.IH show ?thesis by simp
  qed
qed

lemma filter_singleton:
  assumes "distinct (map f xs)" and "e \<in> set xs" and "P e"
    and "\<forall>x \<in> set xs. P x \<longrightarrow> f x = f e"
  shows "filter P xs = [e]"
proof -
  from assms(1) have d: "distinct xs" and inj: "inj_on f (set xs)"
    by (simp_all add: distinct_map)
  have "\<forall>x \<in> set xs. P x \<longleftrightarrow> x = e"
  proof
    fix x assume x: "x \<in> set xs"
    show "P x \<longleftrightarrow> x = e"
    proof
      assume "P x"
      with x assms(4) have "f x = f e" by blast
      with inj x assms(2) show "x = e" by (auto dest: inj_onD)
    next
      assume "x = e"
      with assms(3) show "P x" by simp
    qed
  qed
  with d assms(2) show ?thesis by (rule filter_only)
qed

text \<open>
  Step 3 in closed form, for rows with different ids: the rows that are not valid pairs
  go, with the endpoints they name; the valid pairs are judged on the state at the start.
\<close>

lemma delete_sel [simp]:
  "provider (delete_local r w) = provider w"
  "local_rows (delete_local r w) = filter (\<lambda>x. x \<noteq> r) (local_rows w)"
  "issued (delete_local r w) = issued w"
  "provider (delete_provider i w) = filter (\<lambda>e. endpoint_id e \<noteq> i) (provider w)"
  "local_rows (delete_provider i w) = local_rows w"
  "issued (delete_provider i w) = issued w"
  by (simp_all add: delete_local_def delete_provider_def)

lemma valid_pair_delete_local [simp]:
  "valid_pair b (delete_local r w) = valid_pair b w"
  by (rule ext) (simp add: valid_pair_def retrieve_def)

lemma valid_pair_delete_provider:
  "mw_id x \<noteq> i \<Longrightarrow> valid_pair b (delete_provider i w) x = valid_pair b w x"
  by (simp add: valid_pair_def retrieve_def find_filter_other)

lemma world_eqI:
  "provider a = provider b \<Longrightarrow> local_rows a = local_rows b \<Longrightarrow> issued a = issued b
   \<Longrightarrow> a = (b :: world)"
  by simp

lemma reconcile_closed:
  assumes "distinct (map mw_id rs)"
  shows "fst (reconcile b rs w) = map (\<lambda>r. the (retrieve w (mw_id r))) (filter (valid_pair b w) rs)
       \<and> provider (snd (reconcile b rs w))
           = filter (\<lambda>e. \<not> (\<exists>r \<in> set rs. \<not> valid_pair b w r \<and> mw_id r = endpoint_id e)) (provider w)
       \<and> local_rows (snd (reconcile b rs w))
           = filter (\<lambda>x. \<not> (x \<in> set rs \<and> \<not> valid_pair b w x)) (local_rows w)
       \<and> issued (snd (reconcile b rs w)) = issued w"
  using assms
proof (induction rs arbitrary: w)
  case Nil
  show ?case by simp
next
  case (Cons r rs)
  have dist: "distinct (map mw_id rs)" and "mw_id r \<notin> mw_id ` set rs"
    using Cons.prems by auto
  then have fresh: "\<forall>x \<in> set rs. mw_id x \<noteq> mw_id r" by (metis imageI)
  note IH = Cons.IH [OF dist]
  show ?case
  proof (cases "retrieve w (mw_id r)")
    case None
    then have inval: "\<not> valid_pair b w r" by (simp add: valid_pair_def)
    from None have absent: "\<forall>e \<in> set (provider w). endpoint_id e \<noteq> mw_id r"
      by (simp add: retrieve_def find_None_iff)
    have step: "reconcile b (r # rs) w = reconcile b rs (delete_local r w)"
      using None by simp
    have r1: "retrieve (delete_local r w) = retrieve w"
      by (rule ext) (simp add: retrieve_def)
    have "provider (snd (reconcile b rs (delete_local r w)))
        = filter (\<lambda>e. \<not> (\<exists>x \<in> set (r # rs). \<not> valid_pair b w x \<and> mw_id x = endpoint_id e)) (provider w)"
      unfolding IH [of "delete_local r w", THEN conjunct2, THEN conjunct1]
      using absent by (auto intro!: filter_cong)
    moreover have "local_rows (snd (reconcile b rs (delete_local r w)))
        = filter (\<lambda>x. \<not> (x \<in> set (r # rs) \<and> \<not> valid_pair b w x)) (local_rows w)"
      unfolding IH [of "delete_local r w", THEN conjunct2, THEN conjunct2, THEN conjunct1]
      using inval by (auto intro!: filter_cong)
    moreover have "fst (reconcile b rs (delete_local r w))
        = map (\<lambda>r. the (retrieve w (mw_id r))) (filter (valid_pair b w) (r # rs))"
      unfolding IH [of "delete_local r w", THEN conjunct1] r1
      using inval by simp
    moreover have "issued (snd (reconcile b rs (delete_local r w))) = issued w"
      unfolding IH [of "delete_local r w", THEN conjunct2, THEN conjunct2, THEN conjunct2]
      by simp
    ultimately show ?thesis unfolding step by blast
  next
    case (Some e)
    then have e_id: "endpoint_id e = mw_id r" by (auto simp: retrieve_def dest: find_in)
    show ?thesis
    proof (cases "mw_url r = b \<and> is_managed b e")
      case True
      with Some have val: "valid_pair b w r" by (simp add: valid_pair_def)
      have step: "reconcile b (r # rs) w = (e # fst (reconcile b rs w), snd (reconcile b rs w))"
        using Some True by (simp add: case_prod_beta)
      have "provider (snd (reconcile b rs w))
          = filter (\<lambda>e. \<not> (\<exists>x \<in> set (r # rs). \<not> valid_pair b w x \<and> mw_id x = endpoint_id e)) (provider w)"
        unfolding IH [of w, THEN conjunct2, THEN conjunct1]
        using val by (auto intro!: filter_cong)
      moreover have "local_rows (snd (reconcile b rs w))
          = filter (\<lambda>x. \<not> (x \<in> set (r # rs) \<and> \<not> valid_pair b w x)) (local_rows w)"
        unfolding IH [of w, THEN conjunct2, THEN conjunct2, THEN conjunct1]
        using val by (auto intro!: filter_cong)
      moreover have "e # fst (reconcile b rs w)
          = map (\<lambda>r. the (retrieve w (mw_id r))) (filter (valid_pair b w) (r # rs))"
        unfolding IH [of w, THEN conjunct1] using val Some by simp
      moreover have "issued (snd (reconcile b rs w)) = issued w"
        by (rule IH [of w, THEN conjunct2, THEN conjunct2, THEN conjunct2])
      ultimately show ?thesis unfolding step by simp
    next
      case False
      with Some have inval: "\<not> valid_pair b w r" by (auto simp: valid_pair_def)
      let ?w1 = "delete_local r (delete_provider (endpoint_id e) w)"
      have step: "reconcile b (r # rs) w = reconcile b rs ?w1"
        using Some False by auto
      have same: "valid_pair b ?w1 x = valid_pair b w x" if "x \<in> set rs" for x
        using that fresh e_id by (simp add: valid_pair_delete_provider)
      have r1: "retrieve ?w1 (mw_id x) = retrieve w (mw_id x)" if "x \<in> set rs" for x
        using that fresh e_id
        by (simp add: retrieve_def find_filter_other)
      have "provider (snd (reconcile b rs ?w1))
          = filter (\<lambda>y. \<not> (\<exists>x \<in> set (r # rs). \<not> valid_pair b w x \<and> mw_id x = endpoint_id y)) (provider w)"
        unfolding IH [of ?w1, THEN conjunct2, THEN conjunct1]
        using same inval e_id
        by (auto intro!: filter_cong)
      moreover have "local_rows (snd (reconcile b rs ?w1))
          = filter (\<lambda>x. \<not> (x \<in> set (r # rs) \<and> \<not> valid_pair b w x)) (local_rows w)"
        unfolding IH [of ?w1, THEN conjunct2, THEN conjunct2, THEN conjunct1]
        using same inval
        by (auto intro!: filter_cong)
      moreover have "fst (reconcile b rs ?w1)
          = map (\<lambda>r. the (retrieve w (mw_id r))) (filter (valid_pair b w) (r # rs))"
      proof -
        have "filter (valid_pair b ?w1) rs = filter (valid_pair b w) rs"
          using same by (intro filter_cong) auto
        moreover have "map (\<lambda>x. the (retrieve ?w1 (mw_id x))) (filter (valid_pair b w) rs)
            = map (\<lambda>x. the (retrieve w (mw_id x))) (filter (valid_pair b w) rs)"
          using r1 by (intro map_cong) auto
        ultimately show ?thesis
          unfolding IH [of ?w1, THEN conjunct1] using inval by simp
      qed
      moreover have "issued (snd (reconcile b rs ?w1)) = issued w"
        unfolding IH [of ?w1, THEN conjunct2, THEN conjunct2, THEN conjunct2]
        by simp
      ultimately show ?thesis unfolding step by blast
    qed
  qed
qed


lemma reconcile_none_valid:
  "reconcile b rs w = ([], w') \<Longrightarrow>
     local_rows w' = filter (\<lambda>x. x \<notin> set rs) (local_rows w)
     \<and> set (provider w') \<subseteq> set (provider w) \<and> issued w' = issued w"
proof (induction rs arbitrary: w)
  case Nil
  then show ?case by simp
next
  case (Cons r rs)
  show ?case
  proof (cases "retrieve w (mw_id r)")
    case None
    with Cons.prems have "reconcile b rs (delete_local r w) = ([], w')" by simp
    from Cons.IH [OF this] show ?thesis by (auto intro!: filter_cong)
  next
    case (Some e)
    show ?thesis
    proof (cases "mw_url r = b \<and> is_managed b e")
      case True
      with Some Cons.prems show ?thesis by (simp add: case_prod_beta)
    next
      case False
      with Some Cons.prems
      have "reconcile b rs (delete_local r (delete_provider (endpoint_id e) w)) = ([], w')"
        by auto
      from Cons.IH [OF this] show ?thesis by (auto intro!: filter_cong)
    qed
  qed
qed

lemma no_valid_rows_gone:
  assumes "reconcile b (account_rows a w) w = ([], w')"
  shows "account_rows a w' = []"
proof -
  from reconcile_none_valid [OF assms]
  have "local_rows w' = filter (\<lambda>x. x \<notin> set (account_rows a w)) (local_rows w)" by simp
  then show ?thesis by (auto simp: account_rows_def filter_empty_conv)
qed

lemma settled_managed: "settled a b e w \<Longrightarrow> is_managed b e"
proof -
  assume "settled a b e w"
  then have "e \<in> set (filter (is_managed b) (provider w))" by (simp add: settled_def)
  then show ?thesis by simp
qed

lemma settled_reconcile:
  assumes "settled a b e w"
  shows "reconcile b (account_rows a w) w = ([e], w)"
  using assms settled_managed [OF assms] by (simp add: settled_def)

lemma settled_fixpoint:
  "settled a b e w \<Longrightarrow> findOrCreateManagedWebhook a b ev w = (e, w)"
  by (simp add: findOrCreateManagedWebhook_def settled_reconcile)

lemma pair_settles:
  assumes H: "no_stray_beside_pair a b w"
    and rec: "reconcile b (account_rows a w) w = (e # v, w')"
  shows "settled a b e w'"
proof -
  let ?rows = "account_rows a w"
  let ?keep = "\<lambda>y. \<not> (\<exists>x \<in> set ?rows. \<not> valid_pair b w x \<and> mw_id x = endpoint_id y)"
  from H have dist: "distinct (map endpoint_id (provider w))"
    and rdist: "distinct (map mw_id ?rows)"
    and le1: "length (filter (valid_pair b w) ?rows) \<le> 1"
    and stray: "(\<exists>r \<in> set ?rows. valid_pair b w r) \<longrightarrow>
           (\<forall>y \<in> set (provider w). is_managed b y \<longrightarrow> endpoint_id y \<in> mw_id ` set ?rows)"
    by (simp_all add: no_stray_beside_pair_def)
  note closed = reconcile_closed [OF rdist, of b w]
  from rec closed have vs: "e # v = map (\<lambda>r. the (retrieve w (mw_id r))) (filter (valid_pair b w) ?rows)"
    by simp
  then obtain r where fr: "filter (valid_pair b w) ?rows = [r]"
    using le1 by (cases "filter (valid_pair b w) ?rows") auto
  with vs have e: "e = the (retrieve w (mw_id r))" by simp
  from fr have "r \<in> set (filter (valid_pair b w) ?rows)" by simp
  then have r_in: "r \<in> set ?rows" and r_val: "valid_pair b w r" by simp_all
  from r_val e have ret: "retrieve w (mw_id r) = Some e" and man: "is_managed b e"
    and r_url: "mw_url r = b"
    by (auto simp: valid_pair_def split: option.splits)
  from ret have e_id: "endpoint_id e = mw_id r" and e_in: "e \<in> set (provider w)"
    by (auto simp: retrieve_def dest: find_in)
  from r_in have r_acc: "mw_account_id r = a" by (simp add: account_rows_def)
  have r_eq: "r = \<lparr>mw_id = endpoint_id e, mw_account_id = a, mw_url = b\<rparr>"
    using e_id r_acc r_url by simp
  have only: "x = r" if "x \<in> set ?rows" "valid_pair b w x" for x
  proof -
    from that have "x \<in> set (filter (valid_pair b w) ?rows)" by simp
    with fr show ?thesis by simp
  qed
  have same_id: "x = r" if "x \<in> set ?rows" "mw_id x = mw_id r" for x
    using that r_in rdist by (auto simp: distinct_map dest: inj_onD)
  have prov: "provider w' = filter ?keep (provider w)"
    and loc: "local_rows w' = filter (\<lambda>x. \<not> (x \<in> set ?rows \<and> \<not> valid_pair b w x)) (local_rows w)"
    using rec closed by simp_all
  have "account_rows a w' = filter (valid_pair b w) ?rows"
    unfolding loc account_rows_def filter_filter by (intro filter_cong) auto
  with fr r_eq have rows': "account_rows a w'
      = [\<lparr>mw_id = endpoint_id e, mw_account_id = a, mw_url = b\<rparr>]"
    by simp
  have keep_e: "?keep e"
    using same_id e_id r_val by auto
  with e_in have e_in': "e \<in> set (provider w')" by (simp add: prov)
  have dist': "distinct (map endpoint_id (provider w'))"
    unfolding prov using dist by (rule distinct_map_filter)
  from dist' e_in' have ret': "retrieve w' (endpoint_id e) = Some e"
    unfolding retrieve_def by (rule find_unique)
  have "filter (is_managed b) (provider w') = [e]"
    using dist' e_in' man
  proof (rule filter_singleton)
    show "\<forall>y \<in> set (provider w'). is_managed b y \<longrightarrow> endpoint_id y = endpoint_id e"
    proof (intro ballI impI)
      fix y assume y: "y \<in> set (provider w')" and my: "is_managed b y"
      from y have y_in: "y \<in> set (provider w)" and ky: "?keep y" by (simp_all add: prov)
      from stray r_in r_val y_in my have "endpoint_id y \<in> mw_id ` set ?rows" by blast
      then obtain x where x: "x \<in> set ?rows" "mw_id x = endpoint_id y" by auto
      with ky have "valid_pair b w x" by blast
      with x(1) have "x = r" by (rule only)
      with x(2) e_id show "endpoint_id y = endpoint_id e" by simp
    qed
  qed
  with rows' ret' show ?thesis by (simp add: settled_def)
qed

lemma none_valid_rows_gone:
  assumes "\<forall>e \<in> set (provider w). endpoint_id e < issued w"
    and "reconcile b (account_rows a w) w = ([], w')"
  shows "rows_gone a w'"
proof -
  from reconcile_none_valid [OF assms(2)] assms(1)
  have "\<forall>e \<in> set (provider w'). endpoint_id e < issued w'" by auto
  with no_valid_rows_gone [OF assms(2)] show ?thesis by (simp add: rows_gone_def)
qed

lemma cleanup_sel [simp]:
  "local_rows (cleanup_orphans a w) = local_rows w"
  "issued (cleanup_orphans a w) = issued w"
  "account_rows a' (cleanup_orphans a w) = account_rows a' w"
  by (simp_all add: cleanup_orphans_def account_rows_def)

lemma rows_gone_swept:
  assumes "rows_gone a w"
  shows "swept a b (cleanup_orphans a w)"
proof -
  from assms have rows: "account_rows a w = []"
    and below: "\<forall>e \<in> set (provider w). endpoint_id e < issued w"
    by (simp_all add: rows_gone_def)
  have "\<forall>e \<in> set (provider (cleanup_orphans a w)). \<not> is_managed b e"
    using rows by (auto simp: cleanup_orphans_def is_orphan_def is_managed_def)
  moreover have "\<forall>e \<in> set (provider (cleanup_orphans a w)). endpoint_id e < issued w"
    using below by (simp add: cleanup_orphans_def)
  ultimately show ?thesis
    using rows by (simp add: swept_def rows_gone_def filter_empty_conv)
qed

lemma swept_created:
  assumes "swept a b w" and "create_endpoint b ev w = (e, w')"
  shows "created a b e w'"
proof -
  from assms(2) have e: "e = new_endpoint b ev w"
    and w': "w' = w\<lparr>provider := provider w @ [e], issued := Suc (issued w)\<rparr>"
    by (auto simp: create_endpoint_def)
  from assms(1) have rows: "account_rows a w = []"
    and below: "\<forall>x \<in> set (provider w). endpoint_id x < issued w"
    and none: "filter (is_managed b) (provider w) = []"
    by (simp_all add: swept_def rows_gone_def)
  have id: "endpoint_id e = issued w" and u: "url e = b" and man: "is_managed b e"
    by (simp_all add: e new_endpoint_def is_managed_def)
  from below have "\<forall>x \<in> set (provider w). endpoint_id x \<noteq> endpoint_id e"
    by (auto simp: id)
  then have "find (\<lambda>x. endpoint_id x = endpoint_id e) (provider w) = None"
    by (simp add: find_None_iff)
  then have "retrieve w' (endpoint_id e) = Some e"
    by (simp add: retrieve_def w' find_append_None)
  moreover have "filter (is_managed b) (provider w') = [e]"
    using none man by (simp add: w')
  moreover have "account_rows a w' = []"
    using rows by (simp add: w' account_rows_def)
  ultimately show ?thesis using u by (simp add: created_def)
qed

lemma created_settled:
  assumes "created a b e w"
  shows "settled a b e (insert_row a e w)"
  using assms
  by (simp add: created_def settled_def insert_row_def account_rows_def retrieve_def)


text \<open>Every step of every caller keeps the invariant.\<close>

lemma holder_is:
  assumes "system_inv a b s" and "\<not> idle (pcs s i)"
  shows "lock s = Some i"
proof (cases "lock s")
  case None
  with assms show ?thesis by (simp add: system_inv_def)
next
  case (Some k)
  with assms have "k = i" by (auto simp: system_inv_def)
  with Some show ?thesis by simp
qed

lemma none_returned_upd:
  "none_returned ps \<Longrightarrow> (\<And>e. p \<noteq> Returned e) \<Longrightarrow> none_returned (ps(i := p))"
  by (simp add: none_returned_def)

lemma all_returned_upd:
  "all_returned e ps \<Longrightarrow> (\<And>x. p = Returned x \<Longrightarrow> x = e) \<Longrightarrow> all_returned e (ps(i := p))"
  by (simp add: all_returned_def)

lemma none_all_returned: "none_returned ps \<Longrightarrow> all_returned e ps"
  by (simp add: none_returned_def all_returned_def)

lemma system_inv_step:
  assumes I: "system_inv a b s"
  shows "system_inv a b (step n a b ev i s)"
proof (cases "n \<le> i")
  case True
  with I show ?thesis by (simp add: step_def)
next
  case False
  then have i: "\<not> n \<le> i" .
  show ?thesis
  proof (cases "pcs s i")
    case Waiting
    show ?thesis
    proof (cases "lock s")
      case None
      with I have idle: "\<forall>j. idle (pcs s j)" and btw: "between a b s"
        by (simp_all add: system_inv_def)
      let ?s' = "s\<lparr>lock := Some i, pcs := (pcs s)(i := Locked)\<rparr>"
      from btw have "between a b ?s'"
        by (auto simp: between_def intro: none_returned_upd all_returned_upd)
      with idle have "system_inv a b ?s'" by (simp add: system_inv_def)
      with i Waiting None show ?thesis by (simp add: step_def)
    next
      case (Some j)
      with i Waiting I show ?thesis by (simp add: step_def)
    qed
  next
    case Locked
    then have "\<not> idle (pcs s i)" by (simp add: idle_def)
    with I have lk: "lock s = Some i" by (rule holder_is)
    with I Locked have others: "\<forall>j. j \<noteq> i \<longrightarrow> idle (pcs s j)" and btw: "between a b s"
      by (simp_all add: system_inv_def)
    obtain v w' where rec: "reconcile b (account_rows a (shared s)) (shared s) = (v, w')"
      by (cases "reconcile b (account_rows a (shared s)) (shared s)") auto
    show ?thesis
    proof (cases v)
      case Nil
      from btw have nr: "none_returned (pcs s)" and H: "no_stray_beside_pair a b (shared s)"
        using rec Nil by (auto simp: between_def settled_reconcile)
      from H have "\<forall>e \<in> set (provider (shared s)). endpoint_id e < issued (shared s)"
        by (simp add: no_stray_beside_pair_def)
      with rec Nil have "rows_gone a w'" by (auto intro: none_valid_rows_gone)
      moreover have "none_returned ((pcs s)(i := Scanning))"
        using nr by (rule none_returned_upd) simp
      ultimately have "system_inv a b (s\<lparr>shared := w', pcs := (pcs s)(i := Scanning)\<rparr>)"
        using lk others by (simp add: system_inv_def)
      with i Locked rec Nil show ?thesis by (simp add: step_def)
    next
      case (Cons e v')
      have "settled a b e w' \<and> all_returned e (pcs s)"
        using btw unfolding between_def
      proof (elim disjE conjE exE)
        assume "none_returned (pcs s)" "no_stray_beside_pair a b (shared s)"
        with rec Cons show ?thesis by (auto intro: pair_settles none_all_returned)
      next
        fix e0 assume "settled a b e0 (shared s)" "all_returned e0 (pcs s)"
        with rec Cons show ?thesis by (simp add: settled_reconcile)
      qed
      then have "settled a b e w'" and "all_returned e ((pcs s)(i := Returning e))"
        by (auto intro: all_returned_upd)
      then have "system_inv a b (s\<lparr>shared := w', pcs := (pcs s)(i := Returning e)\<rparr>)"
        using lk others by (simp add: system_inv_def)
      with i Locked rec Cons show ?thesis by (simp add: step_def)
    qed
  next
    case Scanning
    then have "\<not> idle (pcs s i)" by (simp add: idle_def)
    with I have lk: "lock s = Some i" by (rule holder_is)
    with I Scanning have others: "\<forall>j. j \<noteq> i \<longrightarrow> idle (pcs s j)"
      and nr: "none_returned (pcs s)" and g: "rows_gone a (shared s)"
      by (simp_all add: system_inv_def)
    from g have "swept a b (cleanup_orphans a (shared s))" by (rule rows_gone_swept)
    moreover have "none_returned ((pcs s)(i := Creating))"
      using nr by (rule none_returned_upd) simp
    ultimately have "system_inv a b
        (s\<lparr>shared := cleanup_orphans a (shared s), pcs := (pcs s)(i := Creating)\<rparr>)"
      using lk others by (simp add: system_inv_def)
    with i Scanning show ?thesis by (simp add: step_def)
  next
    case Creating
    then have "\<not> idle (pcs s i)" by (simp add: idle_def)
    with I have lk: "lock s = Some i" by (rule holder_is)
    with I Creating have others: "\<forall>j. j \<noteq> i \<longrightarrow> idle (pcs s j)"
      and nr: "none_returned (pcs s)" and sw: "swept a b (shared s)"
      by (simp_all add: system_inv_def)
    obtain e w' where c: "create_endpoint b ev (shared s) = (e, w')"
      by (cases "create_endpoint b ev (shared s)") auto
    with sw have "created a b e w'" by (rule swept_created)
    moreover have "none_returned ((pcs s)(i := Inserting e))"
      using nr by (rule none_returned_upd) simp
    ultimately have "system_inv a b (s\<lparr>shared := w', pcs := (pcs s)(i := Inserting e)\<rparr>)"
      using lk others by (simp add: system_inv_def)
    with i Creating c show ?thesis by (simp add: step_def)
  next
    case (Inserting e)
    then have "\<not> idle (pcs s i)" by (simp add: idle_def)
    with I have lk: "lock s = Some i" by (rule holder_is)
    with I Inserting have others: "\<forall>j. j \<noteq> i \<longrightarrow> idle (pcs s j)"
      and nr: "none_returned (pcs s)" and cr: "created a b e (shared s)"
      by (simp_all add: system_inv_def)
    from cr have "settled a b e (insert_row a e (shared s))" by (rule created_settled)
    moreover have "all_returned e ((pcs s)(i := Returning e))"
      using nr by (intro all_returned_upd none_all_returned) simp_all
    ultimately have "system_inv a b
        (s\<lparr>shared := insert_row a e (shared s), pcs := (pcs s)(i := Returning e)\<rparr>)"
      using lk others by (simp add: system_inv_def)
    with i Inserting show ?thesis by (simp add: step_def)
  next
    case (Returning e)
    then have "\<not> idle (pcs s i)" by (simp add: idle_def)
    with I have lk: "lock s = Some i" by (rule holder_is)
    with I Returning have others: "\<forall>j. j \<noteq> i \<longrightarrow> idle (pcs s j)"
      and st: "settled a b e (shared s)" and ar: "all_returned e (pcs s)"
      by (simp_all add: system_inv_def)
    have "all_returned e ((pcs s)(i := Returned e))"
      using ar by (rule all_returned_upd) simp
    with st have "between a b (s\<lparr>lock := None, pcs := (pcs s)(i := Returned e)\<rparr>)"
      by (auto simp: between_def)
    moreover have "\<forall>j. idle (((pcs s)(i := Returned e)) j)"
      using others by (simp add: idle_def)
    ultimately have "system_inv a b (s\<lparr>lock := None, pcs := (pcs s)(i := Returned e)\<rparr>)"
      by (simp add: system_inv_def)
    with i Returning show ?thesis by (simp add: step_def)
  next
    case (Returned e)
    with i I show ?thesis by (simp add: step_def)
  qed
qed

lemma system_inv_run:
  "system_inv a b s \<Longrightarrow> system_inv a b (run n a b ev sched s)"
  by (induction sched arbitrary: s) (simp_all add: system_inv_step)

lemma system_inv_initial:
  "no_stray_beside_pair a b w \<Longrightarrow> system_inv a b (initial w)"
  by (simp add: system_inv_def initial_def between_def none_returned_def idle_def)

lemma returned_settled:
  assumes I: "system_inv a b s" and r: "pcs s k = Returned x"
  shows "\<exists>e. settled a b e (shared s) \<and> all_returned e (pcs s)"
proof -
  from r have nn: "\<not> none_returned (pcs s)" by (auto simp: none_returned_def)
  show ?thesis
  proof (cases "lock s")
    case None
    with I nn show ?thesis by (auto simp: system_inv_def between_def)
  next
    case (Some i)
    with I nn show ?thesis
      by (cases "pcs s i") (auto simp: system_inv_def between_def)
  qed
qed


text \<open>
  Every schedule can be continued so that all callers return: the holder of the lock
  finishes within six steps, and then the others do, one by one.
\<close>

lemma run_append:
  "run n a b ev (xs @ ys) s = run n a b ev ys (run n a b ev xs s)"
  by (induction xs arbitrary: s) simp_all

lemma run_replicate_Returned:
  "pcs s i = Returned e \<Longrightarrow> run n a b ev (replicate k i) s = s"
  by (induction k) (simp_all add: step_def)

lemma step_progress:
  assumes "i < n" and "pcs s i = Waiting \<longrightarrow> lock s = None" and "0 < rank (pcs s i)"
  shows "\<exists>p. pcs (step n a b ev i s) = (pcs s)(i := p) \<and> p \<noteq> Waiting
            \<and> rank p < rank (pcs s i)
            \<and> (rank p = 0 \<longrightarrow> lock (step n a b ev i s) = None)"
proof (cases "pcs s i")
  case Waiting
  with assms show ?thesis by (intro exI [of _ Locked]) (simp add: step_def)
next
  case Locked
  obtain v w' where rec: "reconcile b (account_rows a (shared s)) (shared s) = (v, w')"
    by (cases "reconcile b (account_rows a (shared s)) (shared s)") auto
  show ?thesis
  proof (cases v)
    case Nil
    with assms Locked rec show ?thesis by (intro exI [of _ Scanning]) (simp add: step_def)
  next
    case (Cons e v')
    with assms Locked rec show ?thesis
      by (intro exI [of _ "Returning e"]) (simp add: step_def)
  qed
next
  case Scanning
  with assms show ?thesis by (intro exI [of _ Creating]) (simp add: step_def)
next
  case Creating
  with assms show ?thesis
    by (intro exI [of _ "Inserting (fst (create_endpoint b ev (shared s)))"])
       (simp add: step_def split: prod.splits)
next
  case (Inserting e)
  with assms show ?thesis by (intro exI [of _ "Returning e"]) (simp add: step_def)
next
  case (Returning e)
  with assms show ?thesis by (intro exI [of _ "Returned e"]) (simp add: step_def)
next
  case (Returned e)
  with assms show ?thesis by simp
qed

lemma run_finish:
  assumes "i < n"
  shows "(pcs s i = Waiting \<longrightarrow> lock s = None) \<Longrightarrow> 0 < rank (pcs s i)
         \<Longrightarrow> rank (pcs s i) \<le> k
         \<Longrightarrow> \<exists>e. pcs (run n a b ev (replicate k i) s) = (pcs s)(i := Returned e)
                \<and> lock (run n a b ev (replicate k i) s) = None"
proof (induction k arbitrary: s)
  case 0
  then show ?case by simp
next
  case (Suc k)
  let ?s1 = "step n a b ev i s"
  have unfold: "run n a b ev (replicate (Suc k) i) s = run n a b ev (replicate k i) ?s1"
    by simp
  from step_progress [OF assms Suc.prems(1,2), of a b ev]
  obtain p where P: "pcs ?s1 = (pcs s)(i := p) \<and> p \<noteq> Waiting
            \<and> rank p < rank (pcs s i) \<and> (rank p = 0 \<longrightarrow> lock ?s1 = None)" ..
  then have p1: "pcs ?s1 = (pcs s)(i := p)" and p2: "p \<noteq> Waiting"
      and p3: "rank p < rank (pcs s i)" and p4: "rank p = 0 \<longrightarrow> lock ?s1 = None"
    by simp_all
  from p1 have at_i: "pcs ?s1 i = p" by simp
  show ?case
  proof (cases "rank p = 0")
    case True
    then obtain e where e: "p = Returned e" by (cases p) simp_all
    from at_i e have "pcs ?s1 i = Returned e" by simp
    then have same: "run n a b ev (replicate k i) ?s1 = ?s1" by (rule run_replicate_Returned)
    from p1 e have "pcs ?s1 = (pcs s)(i := Returned e)" by simp
    moreover from p4 True have "lock ?s1 = None" by simp
    ultimately show ?thesis unfolding unfold same by (intro exI [of _ e] conjI)
  next
    case False
    from p2 at_i have h1: "pcs ?s1 i = Waiting \<longrightarrow> lock ?s1 = None" by simp
    from False at_i have h2: "0 < rank (pcs ?s1 i)" by simp
    from p3 Suc.prems(3) at_i have h3: "rank (pcs ?s1 i) \<le> k" by simp
    from Suc.IH [OF h1 h2 h3]
    obtain e where E: "pcs (run n a b ev (replicate k i) ?s1) = (pcs ?s1)(i := Returned e)
      \<and> lock (run n a b ev (replicate k i) ?s1) = None" ..
    then have e1: "pcs (run n a b ev (replicate k i) ?s1) = (pcs ?s1)(i := Returned e)"
      and e2: "lock (run n a b ev (replicate k i) ?s1) = None"
      by simp_all
    have "(pcs ?s1)(i := Returned e) = (pcs s)(i := Returned e)" unfolding p1 by simp
    with e1 have "pcs (run n a b ev (replicate k i) ?s1) = (pcs s)(i := Returned e)"
      by (rule trans)
    with e2 show ?thesis unfolding unfold by (intro exI [of _ e] conjI)
  qed
qed

lemma rank_le_6: "rank p \<le> 6"
  by (cases p) simp_all

lemma idle_rank: "idle p \<longleftrightarrow> p = Waiting \<or> rank p = 0"
  by (cases p) (simp_all add: idle_def)

lemma caller_completes:
  assumes "i < n" and "lock s = None" and "\<forall>j. idle (pcs s j)"
  shows "lock (run n a b ev (replicate 6 i) s) = None
       \<and> (\<forall>j. idle (pcs (run n a b ev (replicate 6 i) s) j))
       \<and> (\<forall>j. rank (pcs s j) = 0 \<longrightarrow> pcs (run n a b ev (replicate 6 i) s) j = pcs s j)
       \<and> rank (pcs (run n a b ev (replicate 6 i) s) i) = 0"
proof (cases "rank (pcs s i) = 0")
  case True
  then obtain e where "pcs s i = Returned e" by (cases "pcs s i") simp_all
  then have same: "run n a b ev (replicate 6 i) s = s" by (rule run_replicate_Returned)
  from assms True show ?thesis unfolding same by simp
next
  case False
  let ?s' = "run n a b ev (replicate 6 i) s"
  from assms(2) have h1: "pcs s i = Waiting \<longrightarrow> lock s = None" by simp
  from False have h2: "0 < rank (pcs s i)" by simp
  have h3: "rank (pcs s i) \<le> 6" by (rule rank_le_6)
  from run_finish [OF assms(1) h1 h2 h3, of a b ev]
  obtain e where E: "pcs ?s' = (pcs s)(i := Returned e) \<and> lock ?s' = None" ..
  then have e1: "pcs ?s' = (pcs s)(i := Returned e)" and e2: "lock ?s' = None"
    by simp_all
  have "\<forall>j. idle (pcs ?s' j)" unfolding e1 using assms(3) by (simp add: idle_def)
  moreover have "\<forall>j. rank (pcs s j) = 0 \<longrightarrow> pcs ?s' j = pcs s j"
    unfolding e1 using False by auto
  moreover have "rank (pcs ?s' i) = 0" unfolding e1 by simp
  ultimately show ?thesis using e2 by (intro conjI)
qed

lemma one_by_one_Suc: "one_by_one (Suc k) = one_by_one k @ replicate 6 k"
  by (simp add: one_by_one_def)

lemma one_by_one_completes:
  assumes "lock s = None" and "\<forall>j. idle (pcs s j)"
  shows "k \<le> n \<Longrightarrow>
         lock (run n a b ev (one_by_one k) s) = None
       \<and> (\<forall>j. idle (pcs (run n a b ev (one_by_one k) s) j))
       \<and> (\<forall>j<k. rank (pcs (run n a b ev (one_by_one k) s) j) = 0)"
proof (induction k)
  case 0
  with assms show ?case by (simp add: one_by_one_def)
next
  case (Suc k)
  let ?s1 = "run n a b ev (one_by_one k) s"
  let ?s2 = "run n a b ev (replicate 6 k) ?s1"
  have unfold: "run n a b ev (one_by_one (Suc k)) s = ?s2"
    by (simp only: one_by_one_Suc run_append)
  from Suc have IH1: "lock ?s1 = None" and IH2: "\<forall>j. idle (pcs ?s1 j)"
    and IH3: "\<forall>j<k. rank (pcs ?s1 j) = 0"
    by simp_all
  from Suc.prems have "k < n" by simp
  from caller_completes [OF this IH1 IH2, of a b ev]
  have c1: "lock ?s2 = None" and c2: "\<forall>j. idle (pcs ?s2 j)"
    and c3: "\<forall>j. rank (pcs ?s1 j) = 0 \<longrightarrow> pcs ?s2 j = pcs ?s1 j"
    and c4: "rank (pcs ?s2 k) = 0"
    by simp_all
  have "\<forall>j<Suc k. rank (pcs ?s2 j) = 0"
  proof (intro allI impI)
    fix j assume "j < Suc k"
    then consider "j < k" | "j = k" by linarith
    then show "rank (pcs ?s2 j) = 0"
    proof cases
      case 1
      with IH3 have r: "rank (pcs ?s1 j) = 0" by simp
      with c3 have "pcs ?s2 j = pcs ?s1 j" by simp
      with r show ?thesis by simp
    next
      case 2
      with c4 show ?thesis by simp
    qed
  qed
  with c1 c2 show ?case unfolding unfold by (intro conjI)
qed

lemma lock_holder_step:
  "\<forall>h. lock s = Some h \<longrightarrow> h < n \<Longrightarrow> \<forall>h. lock (step n a b ev i s) = Some h \<longrightarrow> h < n"
  by (cases "pcs s i") (simp_all add: step_def split: option.splits prod.splits list.splits)

lemma lock_holder_run:
  "\<forall>h. lock s = Some h \<longrightarrow> h < n \<Longrightarrow> \<forall>h. lock (run n a b ev sched s) = Some h \<longrightarrow> h < n"
proof (induction sched arbitrary: s)
  case Nil
  then show ?case by simp
next
  case (Cons i sched)
  from Cons.prems have "\<forall>h. lock (step n a b ev i s) = Some h \<longrightarrow> h < n"
    by (rule lock_holder_step)
  from Cons.IH [OF this] show ?case by simp
qed

lemma returned_rank: "rank p = 0 \<Longrightarrow> \<exists>e. p = Returned e"
  by (cases p) simp_all

lemma completion:
  assumes I: "system_inv a b s" and L: "\<forall>h. lock s = Some h \<longrightarrow> h < n"
  shows "\<exists>more. \<forall>i<n. \<exists>e. pcs (run n a b ev more s) i = Returned e"
proof -
  have "\<exists>pre. lock (run n a b ev pre s) = None \<and> (\<forall>j. idle (pcs (run n a b ev pre s) j))"
  proof (cases "lock s")
    case None
    with I have "lock (run n a b ev [] s) = None \<and> (\<forall>j. idle (pcs (run n a b ev [] s) j))"
      by (simp add: system_inv_def)
    then show ?thesis by (rule exI)
  next
    case (Some h)
    let ?s' = "run n a b ev (replicate 6 h) s"
    from Some L have h: "h < n" by simp
    from I Some have others: "\<forall>j. j \<noteq> h \<longrightarrow> idle (pcs s j)"
      by (simp add: system_inv_def)
    from I Some have mid: "\<not> idle (pcs s h)"
      by (cases "pcs s h") (simp_all add: system_inv_def idle_def)
    then have h1: "pcs s h = Waiting \<longrightarrow> lock s = None" and h2: "0 < rank (pcs s h)"
      by (simp_all add: idle_rank)
    have h3: "rank (pcs s h) \<le> 6" by (rule rank_le_6)
    from run_finish [OF h h1 h2 h3, of a b ev]
    obtain e where E: "pcs ?s' = (pcs s)(h := Returned e) \<and> lock ?s' = None" ..
    then have e1: "pcs ?s' = (pcs s)(h := Returned e)" and e2: "lock ?s' = None"
      by simp_all
    have "\<forall>j. idle (pcs ?s' j)" unfolding e1 using others by (simp add: idle_def)
    with e2 have "lock ?s' = None \<and> (\<forall>j. idle (pcs ?s' j))" by (intro conjI)
    then show ?thesis by (rule exI)
  qed
  then obtain pre where P: "lock (run n a b ev pre s) = None
      \<and> (\<forall>j. idle (pcs (run n a b ev pre s) j))" ..
  then have pre1: "lock (run n a b ev pre s) = None"
    and pre2: "\<forall>j. idle (pcs (run n a b ev pre s) j)"
    by simp_all
  let ?t = "run n a b ev (pre @ one_by_one n) s"
  have unfold: "?t = run n a b ev (one_by_one n) (run n a b ev pre s)"
    by (rule run_append)
  from one_by_one_completes [OF pre1 pre2, of n n a b ev]
  have "\<forall>j<n. rank (pcs ?t j) = 0" unfolding unfold by simp
  then have "\<forall>i<n. \<exists>e. pcs ?t i = Returned e"
    by (simp add: returned_rank)
  then show ?thesis by (rule exI)
qed

text \<open>
  A caller that takes its six steps with nobody in between performs the call
  \<open>findOrCreateManagedWebhook\<close> on the shared state.
\<close>

lemma six: "replicate 6 i = [i, i, i, i, i, i]"
  by (simp add: eval_nat_numeral)

lemma alone_is_call:
  assumes "i < n" and "lock s = None" and "pcs s i = Waiting"
  shows "shared (run n a b ev (replicate 6 i) s) = snd (findOrCreateManagedWebhook a b ev (shared s))
       \<and> pcs (run n a b ev (replicate 6 i) s) i
           = Returned (fst (findOrCreateManagedWebhook a b ev (shared s)))
       \<and> lock (run n a b ev (replicate 6 i) s) = None"
proof -
  obtain v w' where rec: "reconcile b (account_rows a (shared s)) (shared s) = (v, w')"
    by (cases "reconcile b (account_rows a (shared s)) (shared s)") auto
  show ?thesis
  proof (cases v)
    case Nil
    with assms rec show ?thesis
      by (simp add: six step_def findOrCreateManagedWebhook_def create_endpoint_def)
  next
    case (Cons e v')
    with assms rec show ?thesis
      by (simp add: six step_def findOrCreateManagedWebhook_def)
  qed
qed

text \<open>
  C7. When no valid pair of a local row and a provider endpoint exists, the call deletes
  every endpoint of the account at the provider whose description is exactly
  "stripe-sync-cli development webhook", exactly "Stripe Sync Development", or starts,
  once its whitespace is normalized, with "stripe sync", before it creates the new
  endpoint: such an endpoint is gone after the cleanup of step 5, the call goes on from
  the cleaned-up state to create the endpoint and insert its row, and the endpoint is
  not at the provider when the call returns.
\<close>

theorem legacy_description_endpoints_deleted:
  assumes "reconcile baseUrl (account_rows account w) w = ([], w1)"
    and "legacy_description (description e)"
  shows "e \<notin> set (provider (cleanup_orphans account w1))
       \<and> findOrCreateManagedWebhook account baseUrl events w
           = (case create_endpoint baseUrl events (cleanup_orphans account w1) of
                (e', w2) \<Rightarrow> (e', insert_row account e' w2))
       \<and> e \<notin> set (provider (snd (findOrCreateManagedWebhook account baseUrl events w)))"
proof -
  from assms(1) have "account_rows account w1 = []" by (rule no_valid_rows_gone)
  with assms(2) have "is_orphan account w1 e" by (simp add: is_orphan_def)
  then have gone: "e \<notin> set (provider (cleanup_orphans account w1))"
    by (simp add: cleanup_orphans_def)
  have call: "findOrCreateManagedWebhook account baseUrl events w
           = (case create_endpoint baseUrl events (cleanup_orphans account w1) of
                (e', w2) \<Rightarrow> (e', insert_row account e' w2))"
    using assms(1) by (simp add: findOrCreateManagedWebhook_def)
  have "e \<noteq> new_endpoint baseUrl events (cleanup_orphans account w1)"
  proof
    assume "e = new_endpoint baseUrl events (cleanup_orphans account w1)"
    then have "description e = Some ''Stripe Sync managed webhook''"
      by (simp add: new_endpoint_def)
    with assms(2) show False
      by (simp add: legacy_description_def normalize_whitespace_def is_whitespace_def)
  qed
  with gone have "e \<notin> set (provider (snd (findOrCreateManagedWebhook account baseUrl events w)))"
    unfolding call by (simp add: create_endpoint_def insert_row_def)
  with gone call show ?thesis by (intro conjI)
qed

theorem legacy_description_endpoints_deleted_witness:
  "reconcile ''https://test4.example.com/stripe-webhooks''
      (account_rows ''acct_1''
         \<lparr>provider = [\<lparr>endpoint_id = 0, url = ''https://test4.example.com/stripe-webhooks/old-webhook-2'',
                        managed_by = None, description = Some ''stripe  sync'',
                        enabled_events = [''*'']\<rparr>],
           local_rows = [], issued = 1\<rparr>)
      \<lparr>provider = [\<lparr>endpoint_id = 0, url = ''https://test4.example.com/stripe-webhooks/old-webhook-2'',
                     managed_by = None, description = Some ''stripe  sync'',
                     enabled_events = [''*'']\<rparr>],
        local_rows = [], issued = 1\<rparr>
     = ([], \<lparr>provider = [\<lparr>endpoint_id = 0, url = ''https://test4.example.com/stripe-webhooks/old-webhook-2'',
                     managed_by = None, description = Some ''stripe  sync'',
                     enabled_events = [''*'']\<rparr>],
        local_rows = [], issued = 1\<rparr>)
   \<and> legacy_description (Some ''stripe  sync'')
   \<and> \<lparr>endpoint_id = 0, url = ''https://test4.example.com/stripe-webhooks/old-webhook-2'',
        managed_by = None, description = Some ''stripe  sync'', enabled_events = [''*'']\<rparr>
      \<notin> set (provider (snd (findOrCreateManagedWebhook ''acct_1''
            ''https://test4.example.com/stripe-webhooks'' [''*'']
            \<lparr>provider = [\<lparr>endpoint_id = 0, url = ''https://test4.example.com/stripe-webhooks/old-webhook-2'',
                     managed_by = None, description = Some ''stripe  sync'',
                     enabled_events = [''*'']\<rparr>],
              local_rows = [], issued = 1\<rparr>)))"
proof -
  let ?e = "\<lparr>endpoint_id = 0, url = ''https://test4.example.com/stripe-webhooks/old-webhook-2'',
        managed_by = None, description = Some ''stripe  sync'', enabled_events = [''*'']\<rparr>"
  let ?w = "\<lparr>provider = [?e], local_rows = [], issued = 1\<rparr>"
  let ?base = "''https://test4.example.com/stripe-webhooks''"
  have h1: "reconcile ?base (account_rows ''acct_1'' ?w) ?w = ([], ?w)"
    by (simp add: account_rows_def)
  have d: "legacy_description (Some ''stripe  sync'')"
    by (simp add: legacy_description_def normalize_whitespace_def is_whitespace_def)
  then have h2: "legacy_description (description ?e)" by simp
  from legacy_description_endpoints_deleted [OF h1 h2, of "[''*'']"]
  have "?e \<notin> set (provider (snd (findOrCreateManagedWebhook ''acct_1'' ?base [''*''] ?w)))"
    by (elim conjE)
  with h1 d show ?thesis by (intro conjI)
qed

text \<open>
  C3 (as amended). N \<ge> 1 callers of \<^verbatim>\<open>findOrCreateManagedWebhook(baseUrl)\<close> on the same
  account run concurrently, each taking the advisory lock of step 1: a schedule is any
  interleaving of their steps. The calls start from a state whose ids are unique, with at
  most one valid pair for the URL, and in which a valid pair is not accompanied by an
  untracked endpoint with the URL and the mark (a state with such endpoints but no valid
  pair is allowed: step 5 removes them). Then every schedule can be continued until all
  callers have returned; and in every schedule, once all have returned, there is exactly
  one endpoint at the provider with \<open>url = baseUrl\<close> and
  \<open>metadata.managed_by = "stripe-sync"\<close>, exactly one row of the account with
  \<open>url = baseUrl\<close>, which is the row of that endpoint, and every caller has returned
  that endpoint.
\<close>

theorem findOrCreateManagedWebhook_concurrent_one_webhook:
  assumes "no_stray_beside_pair account baseUrl w" and "0 < n"
  shows "(\<exists>more. \<forall>i<n. \<exists>e.
            pcs (run n account baseUrl events (sched @ more) (initial w)) i = Returned e)
       \<and> ((\<forall>i<n. \<exists>e. pcs (run n account baseUrl events sched (initial w)) i = Returned e) \<longrightarrow>
            (\<exists>e. (\<forall>i<n. pcs (run n account baseUrl events sched (initial w)) i = Returned e)
               \<and> filter (\<lambda>x. url x = baseUrl \<and> managed_by x = Some ''stripe-sync'')
                    (provider (shared (run n account baseUrl events sched (initial w)))) = [e]
               \<and> filter (\<lambda>r. mw_account_id r = account \<and> mw_url r = baseUrl)
                    (local_rows (shared (run n account baseUrl events sched (initial w))))
                  = [\<lparr>mw_id = endpoint_id e, mw_account_id = account, mw_url = baseUrl\<rparr>]))"
proof -
  let ?s = "run n account baseUrl events sched (initial w)"
  from assms(1) have I0: "system_inv account baseUrl (initial w)" by (rule system_inv_initial)
  then have I: "system_inv account baseUrl ?s" by (rule system_inv_run)
  have "\<forall>h. lock (initial w) = Some h \<longrightarrow> h < n" by (simp add: initial_def)
  then have L: "\<forall>h. lock ?s = Some h \<longrightarrow> h < n" by (rule lock_holder_run)
  from completion [OF I L, of events]
  obtain more where "\<forall>i<n. \<exists>e. pcs (run n account baseUrl events more ?s) i = Returned e" ..
  then have "\<forall>i<n. \<exists>e.
      pcs (run n account baseUrl events (sched @ more) (initial w)) i = Returned e"
    by (simp only: run_append)
  then have live: "\<exists>more. \<forall>i<n. \<exists>e.
      pcs (run n account baseUrl events (sched @ more) (initial w)) i = Returned e"
    by (rule exI)
  have safe: "\<exists>e. (\<forall>i<n. pcs ?s i = Returned e)
               \<and> filter (\<lambda>x. url x = baseUrl \<and> managed_by x = Some ''stripe-sync'')
                    (provider (shared ?s)) = [e]
               \<and> filter (\<lambda>r. mw_account_id r = account \<and> mw_url r = baseUrl)
                    (local_rows (shared ?s))
                  = [\<lparr>mw_id = endpoint_id e, mw_account_id = account, mw_url = baseUrl\<rparr>]"
    if all: "\<forall>i<n. \<exists>e. pcs ?s i = Returned e"
  proof -
    from all assms(2) obtain x where "pcs ?s 0 = Returned x" by auto
    with I have "\<exists>e. settled account baseUrl e (shared ?s) \<and> all_returned e (pcs ?s)"
      by (rule returned_settled)
    then obtain e where S: "settled account baseUrl e (shared ?s) \<and> all_returned e (pcs ?s)" ..
    then have st: "settled account baseUrl e (shared ?s)" and ar: "all_returned e (pcs ?s)"
      by simp_all
    have same: "\<forall>i<n. pcs ?s i = Returned e"
    proof (intro allI impI)
      fix i assume "i < n"
      with all obtain y where y: "pcs ?s i = Returned y" by auto
      with ar have "y = e" by (simp add: all_returned_def)
      with y show "pcs ?s i = Returned e" by simp
    qed
    have m: "is_managed baseUrl = (\<lambda>x. url x = baseUrl \<and> managed_by x = Some ''stripe-sync'')"
      by (rule ext) (simp add: is_managed_def)
    from st have one: "filter (\<lambda>x. url x = baseUrl \<and> managed_by x = Some ''stripe-sync'')
                    (provider (shared ?s)) = [e]"
      unfolding settled_def m by simp
    from st have rows: "filter (\<lambda>r. mw_account_id r = account) (local_rows (shared ?s))
        = [\<lparr>mw_id = endpoint_id e, mw_account_id = account, mw_url = baseUrl\<rparr>]"
      unfolding settled_def account_rows_def by simp
    have "filter (\<lambda>r. mw_account_id r = account \<and> mw_url r = baseUrl) (local_rows (shared ?s))
        = filter (\<lambda>r. mw_url r = baseUrl)
            (filter (\<lambda>r. mw_account_id r = account) (local_rows (shared ?s)))"
      by (simp add: conj_commute)
    also have "\<dots> = [\<lparr>mw_id = endpoint_id e, mw_account_id = account, mw_url = baseUrl\<rparr>]"
      unfolding rows by simp
    finally have row: "filter (\<lambda>r. mw_account_id r = account \<and> mw_url r = baseUrl)
          (local_rows (shared ?s))
        = [\<lparr>mw_id = endpoint_id e, mw_account_id = account, mw_url = baseUrl\<rparr>]" .
    from same one row show ?thesis by (intro exI [of _ e] conjI)
  qed
  from live safe show ?thesis by (intro conjI impI)
qed

theorem findOrCreateManagedWebhook_concurrent_one_webhook_witness:
  "no_stray_beside_pair ''acct_1'' ''https://test3.example.com/stripe-webhooks''
      \<lparr>provider = [\<lparr>endpoint_id = 0, url = ''https://test3.example.com/stripe-webhooks'',
                     managed_by = Some ''stripe-sync'',
                     description = Some ''Stripe Sync managed webhook'',
                     enabled_events = [''*'']\<rparr>],
        local_rows = [], issued = 1\<rparr>
   \<and> (0::nat) < 2
   \<and> pcs (run 2 ''acct_1'' ''https://test3.example.com/stripe-webhooks'' [''*'']
           [1, 0, 1, 0, 1, 1, 0, 1, 0, 1, 0, 0, 0]
           (initial \<lparr>provider = [\<lparr>endpoint_id = 0, url = ''https://test3.example.com/stripe-webhooks'',
                     managed_by = Some ''stripe-sync'',
                     description = Some ''Stripe Sync managed webhook'',
                     enabled_events = [''*'']\<rparr>],
              local_rows = [], issued = 1\<rparr>)) 0
       = Returned \<lparr>endpoint_id = 1, url = ''https://test3.example.com/stripe-webhooks'',
                   managed_by = Some ''stripe-sync'',
                   description = Some ''Stripe Sync managed webhook'',
                   enabled_events = [''*'']\<rparr>
   \<and> pcs (run 2 ''acct_1'' ''https://test3.example.com/stripe-webhooks'' [''*'']
           [1, 0, 1, 0, 1, 1, 0, 1, 0, 1, 0, 0, 0]
           (initial \<lparr>provider = [\<lparr>endpoint_id = 0, url = ''https://test3.example.com/stripe-webhooks'',
                     managed_by = Some ''stripe-sync'',
                     description = Some ''Stripe Sync managed webhook'',
                     enabled_events = [''*'']\<rparr>],
              local_rows = [], issued = 1\<rparr>)) 1
       = Returned \<lparr>endpoint_id = 1, url = ''https://test3.example.com/stripe-webhooks'',
                   managed_by = Some ''stripe-sync'',
                   description = Some ''Stripe Sync managed webhook'',
                   enabled_events = [''*'']\<rparr>
   \<and> filter (\<lambda>x. url x = ''https://test3.example.com/stripe-webhooks''
                  \<and> managed_by x = Some ''stripe-sync'')
        (provider (shared (run 2 ''acct_1'' ''https://test3.example.com/stripe-webhooks'' [''*'']
           [1, 0, 1, 0, 1, 1, 0, 1, 0, 1, 0, 0, 0]
           (initial \<lparr>provider = [\<lparr>endpoint_id = 0, url = ''https://test3.example.com/stripe-webhooks'',
                     managed_by = Some ''stripe-sync'',
                     description = Some ''Stripe Sync managed webhook'',
                     enabled_events = [''*'']\<rparr>],
              local_rows = [], issued = 1\<rparr>))))
       = [\<lparr>endpoint_id = 1, url = ''https://test3.example.com/stripe-webhooks'',
            managed_by = Some ''stripe-sync'',
            description = Some ''Stripe Sync managed webhook'',
            enabled_events = [''*'']\<rparr>]
   \<and> filter (\<lambda>r. mw_account_id r = ''acct_1''
                  \<and> mw_url r = ''https://test3.example.com/stripe-webhooks'')
        (local_rows (shared (run 2 ''acct_1'' ''https://test3.example.com/stripe-webhooks'' [''*'']
           [1, 0, 1, 0, 1, 1, 0, 1, 0, 1, 0, 0, 0]
           (initial \<lparr>provider = [\<lparr>endpoint_id = 0, url = ''https://test3.example.com/stripe-webhooks'',
                     managed_by = Some ''stripe-sync'',
                     description = Some ''Stripe Sync managed webhook'',
                     enabled_events = [''*'']\<rparr>],
              local_rows = [], issued = 1\<rparr>))))
       = [\<lparr>mw_id = 1, mw_account_id = ''acct_1'',
            mw_url = ''https://test3.example.com/stripe-webhooks''\<rparr>]"
proof -
  let ?u = "''https://test3.example.com/stripe-webhooks''"
  let ?old = "\<lparr>endpoint_id = 0, url = ?u, managed_by = Some ''stripe-sync'',
      description = Some ''Stripe Sync managed webhook'', enabled_events = [''*'']\<rparr>"
  let ?new = "\<lparr>endpoint_id = 1, url = ?u, managed_by = Some ''stripe-sync'',
      description = Some ''Stripe Sync managed webhook'', enabled_events = [''*'']\<rparr>"
  let ?w = "\<lparr>provider = [?old], local_rows = [], issued = 1\<rparr>"
  let ?s = "run 2 ''acct_1'' ?u [''*''] [1, 0, 1, 0, 1, 1, 0, 1, 0, 1, 0, 0, 0] (initial ?w)"
  have h1: "no_stray_beside_pair ''acct_1'' ?u ?w"
    by (simp add: no_stray_beside_pair_def account_rows_def)
  have h2: "(0::nat) < 2" by simp
  have r0: "pcs ?s 0 = Returned ?new"
    by (simp add: initial_def step_def account_rows_def cleanup_orphans_def is_orphan_def
        create_endpoint_def new_endpoint_def insert_row_def retrieve_def is_managed_def)
  have r1: "pcs ?s 1 = Returned ?new"
    by (simp add: initial_def step_def account_rows_def cleanup_orphans_def is_orphan_def
        create_endpoint_def new_endpoint_def insert_row_def retrieve_def is_managed_def)
  have all: "\<forall>i<2. \<exists>e. pcs ?s i = Returned e"
  proof (intro allI impI)
    fix i :: nat assume "i < 2"
    then consider "i = 0" | "i = 1" by linarith
    then show "\<exists>e. pcs ?s i = Returned e"
    proof cases
      case 1
      with r0 show ?thesis by (intro exI [of _ ?new]) (simp only:)
    next
      case 2
      with r1 show ?thesis by (intro exI [of _ ?new]) (simp only:)
    qed
  qed
  from findOrCreateManagedWebhook_concurrent_one_webhook [OF h1 h2,
      of "[''*'']" "[1, 0, 1, 0, 1, 1, 0, 1, 0, 1, 0, 0, 0]"]
  have "(\<forall>i<2. \<exists>e. pcs ?s i = Returned e) \<longrightarrow>
    (\<exists>e. (\<forall>i<2. pcs ?s i = Returned e)
      \<and> filter (\<lambda>x. url x = ?u \<and> managed_by x = Some ''stripe-sync'') (provider (shared ?s)) = [e]
      \<and> filter (\<lambda>r. mw_account_id r = ''acct_1'' \<and> mw_url r = ?u) (local_rows (shared ?s))
         = [\<lparr>mw_id = endpoint_id e, mw_account_id = ''acct_1'', mw_url = ?u\<rparr>])"
    by (rule conjunct2)
  from this all
  have "\<exists>e. (\<forall>i<2. pcs ?s i = Returned e)
      \<and> filter (\<lambda>x. url x = ?u \<and> managed_by x = Some ''stripe-sync'') (provider (shared ?s)) = [e]
      \<and> filter (\<lambda>r. mw_account_id r = ''acct_1'' \<and> mw_url r = ?u) (local_rows (shared ?s))
         = [\<lparr>mw_id = endpoint_id e, mw_account_id = ''acct_1'', mw_url = ?u\<rparr>]"
    by (rule mp)
  then obtain e where E: "(\<forall>i<2. pcs ?s i = Returned e)
      \<and> filter (\<lambda>x. url x = ?u \<and> managed_by x = Some ''stripe-sync'') (provider (shared ?s)) = [e]
      \<and> filter (\<lambda>r. mw_account_id r = ''acct_1'' \<and> mw_url r = ?u) (local_rows (shared ?s))
         = [\<lparr>mw_id = endpoint_id e, mw_account_id = ''acct_1'', mw_url = ?u\<rparr>]" ..
  then have "pcs ?s 0 = Returned e" by simp
  with r0 have e: "e = ?new" by simp
  from E have "filter (\<lambda>x. url x = ?u \<and> managed_by x = Some ''stripe-sync'') (provider (shared ?s)) = [?new]"
    and "filter (\<lambda>r. mw_account_id r = ''acct_1'' \<and> mw_url r = ?u) (local_rows (shared ?s))
         = [\<lparr>mw_id = 1, mw_account_id = ''acct_1'', mw_url = ?u\<rparr>]"
    unfolding e by simp_all
  with h1 h2 r0 r1 show ?thesis by (intro conjI)
qed

text \<open>
  The claim C3 as stated, for every state the calls may start from, fails: with a valid
  pair for the URL and a second endpoint with the same URL and the mark at the provider
  that no row tracks, a single call takes the lock, finds the pair at step 4 and returns
  it, and the second endpoint stays, so two endpoints with the URL and the mark are left.
\<close>

theorem findOrCreateManagedWebhook_leaves_stray:
  "pcs (run 1 ''acct_1'' ''https://x.example/stripe-webhooks'' [''*''] [0, 0, 0]
         (initial
            \<lparr>provider = [\<lparr>endpoint_id = 0, url = ''https://x.example/stripe-webhooks'',
                           managed_by = Some ''stripe-sync'', description = None,
                           enabled_events = [''*'']\<rparr>,
                          \<lparr>endpoint_id = 1, url = ''https://x.example/stripe-webhooks'',
                           managed_by = Some ''stripe-sync'', description = None,
                           enabled_events = [''*'']\<rparr>],
              local_rows = [\<lparr>mw_id = 0, mw_account_id = ''acct_1'',
                             mw_url = ''https://x.example/stripe-webhooks''\<rparr>],
              issued = 2\<rparr>)) 0
     = Returned \<lparr>endpoint_id = 0, url = ''https://x.example/stripe-webhooks'',
                 managed_by = Some ''stripe-sync'', description = None,
                 enabled_events = [''*'']\<rparr>
   \<and> filter (is_managed ''https://x.example/stripe-webhooks'')
       (provider (shared (run 1 ''acct_1'' ''https://x.example/stripe-webhooks'' [''*''] [0, 0, 0]
         (initial
            \<lparr>provider = [\<lparr>endpoint_id = 0, url = ''https://x.example/stripe-webhooks'',
                           managed_by = Some ''stripe-sync'', description = None,
                           enabled_events = [''*'']\<rparr>,
                          \<lparr>endpoint_id = 1, url = ''https://x.example/stripe-webhooks'',
                           managed_by = Some ''stripe-sync'', description = None,
                           enabled_events = [''*'']\<rparr>],
              local_rows = [\<lparr>mw_id = 0, mw_account_id = ''acct_1'',
                             mw_url = ''https://x.example/stripe-webhooks''\<rparr>],
              issued = 2\<rparr>))))
     = [\<lparr>endpoint_id = 0, url = ''https://x.example/stripe-webhooks'',
          managed_by = Some ''stripe-sync'', description = None, enabled_events = [''*'']\<rparr>,
        \<lparr>endpoint_id = 1, url = ''https://x.example/stripe-webhooks'',
          managed_by = Some ''stripe-sync'', description = None, enabled_events = [''*'']\<rparr>]
   \<and> findOrCreateManagedWebhook ''acct_1'' ''https://x.example/stripe-webhooks'' [''*'']
        \<lparr>provider = [\<lparr>endpoint_id = 0, url = ''https://x.example/stripe-webhooks'',
                       managed_by = Some ''stripe-sync'', description = None,
                       enabled_events = [''*'']\<rparr>,
                      \<lparr>endpoint_id = 1, url = ''https://x.example/stripe-webhooks'',
                       managed_by = Some ''stripe-sync'', description = None,
                       enabled_events = [''*'']\<rparr>],
          local_rows = [\<lparr>mw_id = 0, mw_account_id = ''acct_1'',
                         mw_url = ''https://x.example/stripe-webhooks''\<rparr>],
          issued = 2\<rparr>
     = (\<lparr>endpoint_id = 0, url = ''https://x.example/stripe-webhooks'',
          managed_by = Some ''stripe-sync'', description = None, enabled_events = [''*'']\<rparr>,
        \<lparr>provider = [\<lparr>endpoint_id = 0, url = ''https://x.example/stripe-webhooks'',
                       managed_by = Some ''stripe-sync'', description = None,
                       enabled_events = [''*'']\<rparr>,
                      \<lparr>endpoint_id = 1, url = ''https://x.example/stripe-webhooks'',
                       managed_by = Some ''stripe-sync'', description = None,
                       enabled_events = [''*'']\<rparr>],
          local_rows = [\<lparr>mw_id = 0, mw_account_id = ''acct_1'',
                         mw_url = ''https://x.example/stripe-webhooks''\<rparr>],
          issued = 2\<rparr>)"
  by (simp add: initial_def step_def findOrCreateManagedWebhook_def account_rows_def
      retrieve_def is_managed_def)

end
